theory Spec2Isabelle
  imports Main "HOL-Library.Word"
begin

section \<open>TLV streams: data model\<close>

text \<open>
  The embedding follows the Go package \<open>tlv\<close> (stream.go). A \<open>Type\<close> is a
  \<open>uint64\<close>, so \<open>+\<close> wraps and \<open><\<close> is the unsigned order. Errors are values of
  the datatype \<open>error\<close>; a Go \<open>error\<close> result that may be \<open>nil\<close> is an
  \<open>error option\<close>. \<open>ErrOther\<close> stands for any error of the channel or of a
  capability that the package does not name, and \<open>Panic\<close> for the run-time panic of
  Go on calling a \<open>nil\<close> function value.
\<close>

type_synonym byte = "8 word"
type_synonym Type = "64 word"
type_synonym TypeSet = "Type set"
type_synonym scratch = "byte list"

datatype error =
    EOF
  | ErrUnexpectedEOF
  | ErrStreamNotCanonical
  | ErrRecordTooLarge
  | ErrUnknownRequiredType Type
  | ErrOther nat
  | Panic

definition MaxRecordSize :: "64 word" where
  "MaxRecordSize = 65535"

definition MaxUint64 :: "64 word" where
  "MaxUint64 = 18446744073709551615"

subsection \<open>Byte channels\<close>

text \<open>
  An \<open>io.Reader\<close> is modelled by the bytes it will still deliver and the error it
  reports once they are used up (\<open>EOF\<close> for a source that simply ends). An
  \<open>io.Writer\<close> is modelled by the bytes it has accepted, the number of bytes it
  will still accept (\<open>None\<close>: no limit) and the error it reports beyond that.
\<close>

record reader =
  pending :: "byte list"
  rerr :: error

record writer =
  written :: "byte list"
  room :: "nat option"
  werr :: error

text \<open>\<open>w.Write(p)\<close>: a short write keeps the bytes that were accepted.\<close>

definition Write :: "writer \<Rightarrow> byte list \<Rightarrow> error option \<times> writer" where
  "Write w p =
     (case room w of
        None \<Rightarrow> (None, w\<lparr>written := written w @ p\<rparr>)
      | Some n \<Rightarrow>
          if length p \<le> n
          then (None, w\<lparr>written := written w @ p, room := Some (n - length p)\<rparr>)
          else (Some (werr w), w\<lparr>written := written w @ take n p, room := Some 0\<rparr>))"

text \<open>
  \<open>io.ReadFull(r, buf[:n])\<close> for \<open>n > 0\<close>: the error is the reader's own when no
  byte could be read, and \<open>io.ErrUnexpectedEOF\<close> when the source ended after some
  but not all bytes.
\<close>

definition ReadFull :: "reader \<Rightarrow> nat \<Rightarrow> (error + byte list) \<times> reader" where
  "ReadFull r n =
     (if n \<le> length (pending r)
      then (Inr (take n (pending r)), r\<lparr>pending := drop n (pending r)\<rparr>)
      else if pending r = [] then (Inl (rerr r), r)
      else (Inl (if rerr r = EOF then ErrUnexpectedEOF else rerr r), r\<lparr>pending := []\<rparr>))"

text \<open>
  \<open>io.CopyN(ioutil.Discard, r, n)\<close>: reads and drops \<open>n\<close> bytes; when the source
  ends before that, the error is \<open>io.EOF\<close> (or the reader's own error).
\<close>

definition CopyN_Discard :: "reader \<Rightarrow> nat \<Rightarrow> error option \<times> reader" where
  "CopyN_Discard r n =
     (if n \<le> length (pending r)
      then (None, r\<lparr>pending := drop n (pending r)\<rparr>)
      else (Some (rerr r), r\<lparr>pending := []\<rparr>))"

subsection \<open>Records and streams\<close>

text \<open>
  Modelled from the spec: the declarations of \<open>Record\<close>, \<open>Type\<close>, \<open>TypeSet\<close>
  and of the capability types are in other files of the package; the fields \<open>typ\<close>,
  \<open>value\<close>, \<open>encoder\<close> and \<open>decoder\<close> are the ones the source reads (\<open>typ\<close>
  is \<open>rtyp\<close> and \<open>value\<close> is \<open>val\<close> here).
  A \<open>Record\<close> binds a type to a reference to storage that the caller owns. The
  storage is a store from addresses to values of type \<open>'a\<close>; \<open>val\<close> is the address.
  The capabilities are opaque functions supplied by the caller: an encoder sees the
  writer, the value and the scratch buffer; a decoder sees the reader, the value, the
  scratch buffer and the declared length, and returns the new value. Either may be
  \<open>nil\<close> (\<open>None\<close>).
\<close>

type_synonym 'a Encoder = "writer \<Rightarrow> 'a \<Rightarrow> scratch \<Rightarrow> error option \<times> writer \<times> scratch"
type_synonym 'a Decoder =
  "reader \<Rightarrow> 'a \<Rightarrow> scratch \<Rightarrow> 64 word \<Rightarrow> error option \<times> reader \<times> 'a \<times> scratch"

record 'a Record =
  rtyp :: Type
  val :: nat
  sizeOf :: "'a \<Rightarrow> 64 word"
  encoder :: "'a Encoder option"
  decoder :: "'a Decoder option"

type_synonym 'a store = "nat \<Rightarrow> 'a"

text \<open>
  Modelled from the spec: \<open>Record.Size\<close> is defined in another file of the
  package. The spec describes it as the capability computing the byte length of the
  record's value.
\<close>

definition Size :: "'a Record \<Rightarrow> 'a store \<Rightarrow> 64 word" where
  "Size rec h = sizeOf rec (h (val rec))"

record 'a Stream =
  records :: "'a Record list"
  buf :: scratch

text \<open>
  The VarInt routines \<open>ReadVarInt\<close> and \<open>WriteVarInt\<close> are defined in another
  file of the package as well. The stream operations take them as parameters of
  these types.
\<close>

type_synonym VarIntReader = "reader \<Rightarrow> scratch \<Rightarrow> (error + 64 word) \<times> reader \<times> scratch"
type_synonym VarIntWriter = "writer \<Rightarrow> 64 word \<Rightarrow> scratch \<Rightarrow> error option \<times> writer \<times> scratch"

section \<open>NewStream\<close>

text \<open>
  The loop of \<open>NewStream\<close> over the records, with its variables \<open>min\<close> and
  \<open>overflow\<close>; the result is \<open>False\<close> where the source returns
  \<open>ErrStreamNotCanonical\<close>. The two assignments of default capabilities act on the
  loop variable \<open>record\<close>, which in Go is a copy of the slice element, so the
  slice that ends up in the Stream is the one that was passed.
\<close>

fun NewStream_loop :: "'a Record list \<Rightarrow> Type \<Rightarrow> bool \<Rightarrow> bool" where
  "NewStream_loop [] minT ovf = True"
| "NewStream_loop (record # rest) minT ovf =
     (if ovf \<or> rtyp record < minT then False
      else NewStream_loop rest (rtyp record + 1)
             (if rtyp record = MaxUint64 then True else ovf))"

text \<open>The zero value of the field \<open>buf [8]byte\<close>.\<close>

definition zero_buf :: scratch where
  "zero_buf = [0, 0, 0, 0, 0, 0, 0, 0]"

definition NewStream :: "'a Record list \<Rightarrow> error + 'a Stream" where
  "NewStream recs =
     (if NewStream_loop recs 0 False
      then Inr \<lparr>records = recs, buf = zero_buf\<rparr>
      else Inl ErrStreamNotCanonical)"

section \<open>Encode\<close>

text \<open>Calling \<open>rec.encoder(w, rec.value, &s.buf)\<close>; a \<open>nil\<close> encoder panics.\<close>

definition call_encoder ::
  "'a Record \<Rightarrow> writer \<Rightarrow> 'a store \<Rightarrow> scratch \<Rightarrow> error option \<times> writer \<times> scratch" where
  "call_encoder rec w h b =
     (case encoder rec of
        None \<Rightarrow> (Some Panic, w, b)
      | Some enc \<Rightarrow> enc w (h (val rec)) b)"

fun Encode_loop ::
  "VarIntWriter \<Rightarrow> 'a Record list \<Rightarrow> writer \<Rightarrow> 'a store \<Rightarrow> scratch
     \<Rightarrow> error option \<times> writer \<times> scratch" where
  "Encode_loop wv [] w h b = (None, w, b)"
| "Encode_loop wv (rec # rest) w h b =
     (case wv w (rtyp rec) b of
        (Some e, w1, b1) \<Rightarrow> (Some e, w1, b1)
      | (None, w1, b1) \<Rightarrow>
          (case wv w1 (Size rec h) b1 of
             (Some e, w2, b2) \<Rightarrow> (Some e, w2, b2)
           | (None, w2, b2) \<Rightarrow>
               (case call_encoder rec w2 h b2 of
                  (Some e, w3, b3) \<Rightarrow> (Some e, w3, b3)
                | (None, w3, b3) \<Rightarrow> Encode_loop wv rest w3 h b3)))"

text \<open>
  \<open>Encode\<close> returns the error, the writer as it was left, and the Stream as it
  was left (only its scratch buffer is ever assigned).
\<close>

definition Encode ::
  "VarIntWriter \<Rightarrow> 'a Stream \<Rightarrow> writer \<Rightarrow> 'a store \<Rightarrow> error option \<times> writer \<times> 'a Stream" where
  "Encode wv s w h =
     (case Encode_loop wv (records s) w h (buf s) of
        (e, w', b') \<Rightarrow> (e, w', s\<lparr>buf := b'\<rparr>))"

text \<open>
  The description of \<open>Encode\<close> in the spec, for comparison with the loop above:
  for each record in stored order, three writes (the type as a VarInt, the size of
  the value as a VarInt, the value by the record's encoder), run one after the other;
  the first write that fails ends the run, its error is the result, and the writer
  stays as that write left it.
\<close>

type_synonym write_step = "writer \<Rightarrow> scratch \<Rightarrow> error option \<times> writer \<times> scratch"

definition encode_record_steps :: "VarIntWriter \<Rightarrow> 'a store \<Rightarrow> 'a Record \<Rightarrow> write_step list" where
  "encode_record_steps wv h rec =
     [\<lambda>w b. wv w (rtyp rec) b, \<lambda>w b. wv w (Size rec h) b, \<lambda>w b. call_encoder rec w h b]"

fun run_steps :: "write_step list \<Rightarrow> writer \<Rightarrow> scratch \<Rightarrow> error option \<times> writer \<times> scratch" where
  "run_steps [] w b = (None, w, b)"
| "run_steps (f # fs) w b =
     (case f w b of
        (Some e, w', b') \<Rightarrow> (Some e, w', b')
      | (None, w', b') \<Rightarrow> run_steps fs w' b')"

definition Encode_spec ::
  "VarIntWriter \<Rightarrow> 'a Stream \<Rightarrow> writer \<Rightarrow> 'a store \<Rightarrow> error option \<times> writer \<times> 'a Stream" where
  "Encode_spec wv s w h =
     (case run_steps (concat (map (encode_record_steps wv h) (records s))) w (buf s) of
        (e, w', b') \<Rightarrow> (e, w', s\<lparr>buf := b'\<rparr>))"

section \<open>Decode\<close>

subsection \<open>getRecord\<close>

text \<open>
  \<open>getRecord\<close> returns \<open>(record, idx, ok)\<close>; the record is meaningful only when
  \<open>ok\<close> holds, so the pair of both is an option here.
\<close>

function getRecord :: "'a Record list \<Rightarrow> Type \<Rightarrow> nat \<Rightarrow> 'a Record option \<times> nat" where
  "getRecord recs t idx =
     (if idx < length recs then
        (if rtyp (recs ! idx) = t then (Some (recs ! idx), idx + 1)
         else if rtyp (recs ! idx) < t then getRecord recs t (idx + 1)
         else (None, idx))
      else (None, idx))"
  by pat_completeness auto
termination
  by (relation "measure (\<lambda>(recs, t, idx). length recs - idx)") auto

declare getRecord.simps [simp del]


subsection \<open>The decode loop\<close>

text \<open>
  The variables of \<open>decode\<close> that live across iterations (\<open>typ\<close>, \<open>min\<close>,
  \<open>firstFail\<close>, \<open>recordIdx\<close>, \<open>overflow\<close>, and the map \<open>parsedTypes\<close>, which
  is \<open>nil\<close> for an untracked decode), together with what the call mutates outside
  itself: the reader, the caller's storage and the scratch buffer of the Stream.
\<close>

record 'a dstate =
  rd :: reader
  heap :: "'a store"
  sbuf :: scratch
  parsedTypes :: "TypeSet option"
  typ_v :: Type
  min_v :: Type
  firstFail :: "Type option"
  recordIdx :: nat
  overflow :: bool

text \<open>
  What a \<open>return\<close> of \<open>decode\<close> leaves behind: the two results, and the reader,
  storage and scratch buffer as they are at that point.
\<close>

record 'a dresult =
  res_types :: "TypeSet option"
  res_err :: "error option"
  res_rd :: reader
  res_heap :: "'a store"
  res_buf :: scratch

definition leave :: "'a dstate \<Rightarrow> TypeSet option \<Rightarrow> error option \<Rightarrow> 'a dresult" where
  "leave st ts e =
     \<lparr>res_types = ts, res_err = e, res_rd = rd st, res_heap = heap st, res_buf = sbuf st\<rparr>"

text \<open>
  Calling \<open>rec.decoder(r, rec.value, &s.buf, length)\<close>; a \<open>nil\<close> decoder panics.
  What the decoder did to the value stays, also when it reports an error.
\<close>

definition call_decoder ::
  "'a Record \<Rightarrow> reader \<Rightarrow> 'a store \<Rightarrow> scratch \<Rightarrow> 64 word
     \<Rightarrow> error option \<times> reader \<times> 'a store \<times> scratch" where
  "call_decoder rec r h b len =
     (case decoder rec of
        None \<Rightarrow> (Some Panic, r, h, b)
      | Some dec \<Rightarrow>
          (case dec r (h (val rec)) b len of
             (e, r', a', b') \<Rightarrow> (e, r', h(val rec := a'), b')))"

text \<open>The end of the loop body (after the \<open>switch\<close> on the lookup).\<close>

definition next_iter :: "'a dstate \<Rightarrow> Type \<Rightarrow> nat \<Rightarrow> 'a dstate" where
  "next_iter st t newIdx =
     st\<lparr>parsedTypes := map_option (insert t) (parsedTypes st),
        recordIdx := newIdx,
        overflow := (if t = MaxUint64 then True else overflow st),
        min_v := t + 1\<rparr>"

text \<open>
  One iteration of the \<open>for\<close> loop of \<open>decode\<close>: \<open>Inl\<close> is a \<open>return\<close>,
  \<open>Inr\<close> the state with which the next iteration starts.
\<close>

definition decode_step ::
  "VarIntReader \<Rightarrow> 'a Record list \<Rightarrow> 'a dstate \<Rightarrow> 'a dresult + 'a dstate" where
  "decode_step rv recs st =
     (case rv (rd st) (sbuf st) of
        (Inl e, r1, b1) \<Rightarrow>
          (let st1 = st\<lparr>rd := r1, sbuf := b1\<rparr> in
           if e = EOF then
             (case firstFail st of
                None \<Rightarrow> Inl (leave st1 (parsedTypes st) None)
              | Some f \<Rightarrow> Inl (leave st1 (parsedTypes st) (Some (ErrUnknownRequiredType f))))
           else Inl (leave st1 None (Some e)))
      | (Inr t, r1, b1) \<Rightarrow>
          (let st1 = st\<lparr>rd := r1, sbuf := b1, typ_v := t\<rparr> in
           if overflow st \<or> t < min_v st
           then Inl (leave st1 None (Some ErrStreamNotCanonical))
           else
             (case rv r1 b1 of
                (Inl e, r2, b2) \<Rightarrow>
                  Inl (leave (st1\<lparr>rd := r2, sbuf := b2\<rparr>) None
                         (Some (if e = EOF then ErrUnexpectedEOF else e)))
              | (Inr len, r2, b2) \<Rightarrow>
                  (let st2 = st1\<lparr>rd := r2, sbuf := b2\<rparr> in
                   if len > MaxRecordSize
                   then Inl (leave st2 None (Some ErrRecordTooLarge))
                   else
                     (case getRecord recs t (recordIdx st) of
                        (Some rec, newIdx) \<Rightarrow>
                          (case call_decoder rec r2 (heap st) b2 len of
                             (Some e, r3, h3, b3) \<Rightarrow>
                               Inl (leave (st2\<lparr>rd := r3, heap := h3, sbuf := b3\<rparr>) None
                                      (Some (if e = EOF then ErrUnexpectedEOF else e)))
                           | (None, r3, h3, b3) \<Rightarrow>
                               Inr (next_iter (st2\<lparr>rd := r3, heap := h3, sbuf := b3\<rparr>)
                                      t newIdx))
                      | (None, newIdx) \<Rightarrow>
                          if t mod 2 = 0 \<and> parsedTypes st = None
                          then Inl (leave st2 None (Some (ErrUnknownRequiredType t)))
                          else
                            (let st3 = (if t mod 2 = 0 \<and> firstFail st = None
                                        then st2\<lparr>firstFail := Some t\<rparr> else st2) in
                             case CopyN_Discard r2 (unat len) of
                               (Some e, r3) \<Rightarrow>
                                 Inl (leave (st3\<lparr>rd := r3\<rparr>) None
                                        (Some (if e = EOF then ErrUnexpectedEOF else e)))
                             | (None, r3) \<Rightarrow>
                                 Inr (next_iter (st3\<lparr>rd := r3\<rparr>) t newIdx)))))))"


text \<open>
  The loop itself. It ends for every reader and every capability: an iteration that
  does not return raises \<open>min\<close>, or sets \<open>overflow\<close>, after which the next
  iteration returns.
\<close>

definition decode_measure :: "'a dstate \<Rightarrow> nat" where
  "decode_measure st = (if overflow st then 0 else 2 ^ 64 - unat (min_v st))"

function decode_loop :: "VarIntReader \<Rightarrow> 'a Record list \<Rightarrow> 'a dstate \<Rightarrow> 'a dresult" where
  "decode_loop rv recs st =
     (case decode_step rv recs st of
        Inl res \<Rightarrow> res
      | Inr st' \<Rightarrow> decode_loop rv recs st')"
  by pat_completeness auto
termination
proof (relation "measure (\<lambda>(rv, recs, st). decode_measure st)")
  show "wf (measure (\<lambda>(rv :: VarIntReader, recs :: 'a Record list, st). decode_measure st))"
    by simp
next
  fix rv :: VarIntReader and recs :: "'a Record list" and st st' :: "'a dstate"
  assume step: "decode_step rv recs st = Inr st'"
  from step have a: "\<not> overflow st" and b: "min_v st \<le> typ_v st'"
    and c: "min_v st' = typ_v st' + 1" and d: "overflow st' = (typ_v st' = MaxUint64)"
    by (auto simp: decode_step_def Let_def next_iter_def
             split: prod.splits sum.splits option.splits if_splits)
  have lt: "unat x < 2 ^ 64" for x :: "64 word"
    using unsigned_less [of x, where 'a = nat] by simp
  have "decode_measure st' < decode_measure st"
  proof (cases "typ_v st' = MaxUint64")
    case True
    then show ?thesis using a d lt [of "min_v st"] by (simp add: decode_measure_def)
  next
    case False
    have "unat (typ_v st') \<noteq> 18446744073709551615"
    proof
      assume "unat (typ_v st') = 18446744073709551615"
      then have "word_of_nat (unat (typ_v st')) = (word_of_nat 18446744073709551615 :: 64 word)"
        by simp
      then have "typ_v st' = MaxUint64" by (simp add: MaxUint64_def)
      with False show False by simp
    qed
    with lt [of "typ_v st'"] have "unat (typ_v st') < 18446744073709551615" by simp
    then have suc: "unat (typ_v st' + 1) = unat (typ_v st') + 1"
      by (simp add: unat_word_ariths)
    have "unat (min_v st) \<le> unat (typ_v st')" using b by (simp add: word_le_nat_alt)
    then show ?thesis
      using a d False c suc lt [of "typ_v st'"] by (simp add: decode_measure_def)
  qed
  then show "((rv, recs, st'), (rv, recs, st)) \<in> measure (\<lambda>(rv, recs, st). decode_measure st)"
    by simp
qed

declare decode_loop.simps [simp del]

text \<open>
  \<open>decode\<close> starts the loop with its variables at their zero values. \<open>Decode\<close>
  passes \<open>nil\<close> for the type set and drops it from the result;
  \<open>DecodeWithParsedTypes\<close> passes a new empty set. Both also give the reader and
  the storage as the call left them, and the Stream with the scratch buffer as the
  call left it.
\<close>

definition decode_init ::
  "'a Stream \<Rightarrow> reader \<Rightarrow> 'a store \<Rightarrow> TypeSet option \<Rightarrow> 'a dstate" where
  "decode_init s r h pt =
     \<lparr>rd = r, heap = h, sbuf = buf s, parsedTypes = pt, typ_v = 0, min_v = 0,
      firstFail = None, recordIdx = 0, overflow = False\<rparr>"

definition decode ::
  "VarIntReader \<Rightarrow> 'a Stream \<Rightarrow> reader \<Rightarrow> 'a store \<Rightarrow> TypeSet option \<Rightarrow> 'a dresult" where
  "decode rv s r h pt = decode_loop rv (records s) (decode_init s r h pt)"

text \<open>
  \<open>iterations rv recs st sts\<close>: starting in \<open>st\<close>, the loop runs through
  \<open>length sts\<close> iterations that do not return, and \<open>sts\<close> are the states they
  end in, in order. The \<open>typ_v\<close> of each is the type that iteration accepted.
\<close>

fun iterations ::
  "VarIntReader \<Rightarrow> 'a Record list \<Rightarrow> 'a dstate \<Rightarrow> 'a dstate list \<Rightarrow> bool" where
  "iterations rv recs st [] = True"
| "iterations rv recs st (st' # sts) =
     (decode_step rv recs st = Inr st' \<and> iterations rv recs st' sts)"

definition Decode ::
  "VarIntReader \<Rightarrow> 'a Stream \<Rightarrow> reader \<Rightarrow> 'a store
     \<Rightarrow> error option \<times> reader \<times> 'a store \<times> 'a Stream" where
  "Decode rv s r h =
     (let res = decode rv s r h None
      in (res_err res, res_rd res, res_heap res, s\<lparr>buf := res_buf res\<rparr>))"

definition DecodeWithParsedTypes ::
  "VarIntReader \<Rightarrow> 'a Stream \<Rightarrow> reader \<Rightarrow> 'a store
     \<Rightarrow> TypeSet option \<times> error option \<times> reader \<times> 'a store \<times> 'a Stream" where
  "DecodeWithParsedTypes rv s r h =
     (let res = decode rv s r h (Some {})
      in (res_types res, res_err res, res_rd res, res_heap res, s\<lparr>buf := res_buf res\<rparr>))"

section \<open>What the round trip asks of the parts supplied from outside\<close>

text \<open>
  The VarInt routines and the capabilities of the records are not part of the Stream;
  the round trip of \<open>Encode\<close> and \<open>Decode\<close> can only hold when they fit each
  other. \<open>varint_roundtrip wv rv v bs\<close>: on a writer without limit \<open>wv\<close> writes
  \<open>v\<close> as the bytes \<open>bs\<close>, and \<open>rv\<close> reads \<open>v\<close> back from a reader
  that starts with \<open>bs\<close>, taking exactly these bytes. \<open>clean_end rv\<close>: on a
  reader that has ended, \<open>rv\<close> reports \<open>EOF\<close>. \<open>value_roundtrip rec a bs\<close>:
  the value \<open>a\<close> is in range (its size does not exceed \<open>MaxRecordSize\<close>), the
  record has both capabilities, its encoder writes \<open>a\<close> as the bytes \<open>bs\<close>, and
  its decoder, given the size of \<open>a\<close> as the length, reads \<open>a\<close> back from a
  reader that starts with \<open>bs\<close>, taking exactly these bytes.
\<close>

definition varint_roundtrip :: "VarIntWriter \<Rightarrow> VarIntReader \<Rightarrow> 64 word \<Rightarrow> byte list \<Rightarrow> bool" where
  "varint_roundtrip wv rv v bs \<longleftrightarrow>
     (\<forall>w b. room w = None \<longrightarrow>
        fst (wv w v b) = None \<and> fst (snd (wv w v b)) = w\<lparr>written := written w @ bs\<rparr>)
     \<and> (\<forall>rest e b.
          fst (rv \<lparr>pending = bs @ rest, rerr = e\<rparr> b) = Inr v
          \<and> fst (snd (rv \<lparr>pending = bs @ rest, rerr = e\<rparr> b)) = \<lparr>pending = rest, rerr = e\<rparr>)"

definition clean_end :: "VarIntReader \<Rightarrow> bool" where
  "clean_end rv \<longleftrightarrow>
     (\<forall>b. fst (rv \<lparr>pending = [], rerr = EOF\<rparr> b) = Inl EOF
          \<and> fst (snd (rv \<lparr>pending = [], rerr = EOF\<rparr> b)) = \<lparr>pending = [], rerr = EOF\<rparr>)"

definition value_roundtrip :: "'a Record \<Rightarrow> 'a \<Rightarrow> byte list \<Rightarrow> bool" where
  "value_roundtrip rec a bs \<longleftrightarrow>
     sizeOf rec a \<le> MaxRecordSize
     \<and> (\<exists>enc dec. encoder rec = Some enc \<and> decoder rec = Some dec
          \<and> (\<forall>w b. room w = None \<longrightarrow>
                 fst (enc w a b) = None
                 \<and> fst (snd (enc w a b)) = w\<lparr>written := written w @ bs\<rparr>)
          \<and> (\<forall>rest e a0 b.
                 fst (dec \<lparr>pending = bs @ rest, rerr = e\<rparr> a0 b (sizeOf rec a)) = None
                 \<and> fst (snd (dec \<lparr>pending = bs @ rest, rerr = e\<rparr> a0 b (sizeOf rec a)))
                     = \<lparr>pending = rest, rerr = e\<rparr>
                 \<and> fst (snd (snd (dec \<lparr>pending = bs @ rest, rerr = e\<rparr> a0 b (sizeOf rec a))))
                     = a))"

text \<open>The bytes of a list of records on the wire, given the bytes of each part.\<close>

definition wire :: "(64 word \<Rightarrow> byte list) \<Rightarrow> ('a Record \<Rightarrow> byte list) \<Rightarrow> 'a store
                     \<Rightarrow> 'a Record list \<Rightarrow> byte list" where
  "wire vb eb h recs = concat (map (\<lambda>rec. vb (rtyp rec) @ vb (Size rec h) @ eb rec) recs)"

text \<open>
  A record list described in the same way but bound to other storage: each value
  reference \<open>p\<close> is replaced by \<open>f p\<close>.
\<close>

definition rebind :: "(nat \<Rightarrow> nat) \<Rightarrow> 'a Record list \<Rightarrow> 'a Record list" where
  "rebind f recs = map (\<lambda>rec. rec\<lparr>val := f (val rec)\<rparr>) recs"

section \<open>Use of the scratch buffer by the parts supplied from outside\<close>

text \<open>
  The Stream hands its scratch buffer to the VarInt routines and to the capabilities.
  A routine or capability is blind to the scratch buffer when what it returns, and
  what it does to the channel and to the value, do not depend on what the buffer
  holds when it is called.
\<close>

definition scratch_blind_writer :: "VarIntWriter \<Rightarrow> bool" where
  "scratch_blind_writer wv \<longleftrightarrow>
     (\<forall>w v b b'. fst (wv w v b) = fst (wv w v b')
                 \<and> fst (snd (wv w v b)) = fst (snd (wv w v b')))"

definition scratch_blind_reader :: "VarIntReader \<Rightarrow> bool" where
  "scratch_blind_reader rv \<longleftrightarrow>
     (\<forall>r b b'. fst (rv r b) = fst (rv r b') \<and> fst (snd (rv r b)) = fst (snd (rv r b')))"

definition scratch_blind_record :: "'a Record \<Rightarrow> bool" where
  "scratch_blind_record rec \<longleftrightarrow>
     (\<forall>enc. encoder rec = Some enc \<longrightarrow>
        (\<forall>w a b b'. fst (enc w a b) = fst (enc w a b')
                    \<and> fst (snd (enc w a b)) = fst (snd (enc w a b'))))
     \<and> (\<forall>dec. decoder rec = Some dec \<longrightarrow>
          (\<forall>r a b b' l. fst (dec r a b l) = fst (dec r a b' l)
                        \<and> fst (snd (dec r a b l)) = fst (snd (dec r a b' l))
                        \<and> fst (snd (snd (dec r a b l))) = fst (snd (snd (dec r a b' l)))))"

section \<open>A VarInt codec and two capabilities, for running the operations\<close>

text \<open>
  Modelled from the spec: \<open>WriteVarInt\<close> and \<open>ReadVarInt\<close> are defined outside
  stream.go. The spec describes them as writing a value in 1, 3, 5 or 9 bytes, the
  least width that fits, and reading that pattern back, with a clean end of input
  told apart from a failure. The byte order (big-endian here) and whether an
  encoding in more bytes than needed is refused (accepted here) are not fixed by the
  spec; the theorems below hold for every codec and use this one only at concrete
  inputs.
\<close>

definition be_bytes :: "nat \<Rightarrow> 64 word \<Rightarrow> byte list" where
  "be_bytes n v = map (\<lambda>i. ucast (drop_bit (8 * i) v)) (rev [0..<n])"

definition be_value :: "byte list \<Rightarrow> 64 word" where
  "be_value bs = foldl (\<lambda>acc b. or (push_bit 8 acc) (ucast b)) 0 bs"

definition varint_bytes :: "64 word \<Rightarrow> byte list" where
  "varint_bytes v =
     (if v < 253 then [ucast v]
      else if v \<le> 65535 then 253 # be_bytes 2 v
      else if v \<le> 4294967295 then 254 # be_bytes 4 v
      else 255 # be_bytes 8 v)"

definition scratch_put :: "byte list \<Rightarrow> scratch \<Rightarrow> scratch" where
  "scratch_put bs b = take 8 (bs @ drop (length bs) b)"

definition WriteVarInt :: VarIntWriter where
  "WriteVarInt w v b =
     (case Write w (varint_bytes v) of
        (e, w') \<Rightarrow> (e, w', scratch_put (varint_bytes v) b))"

definition ReadVarInt :: VarIntReader where
  "ReadVarInt r b =
     (case pending r of
        [] \<Rightarrow> (Inl (rerr r), r, b)
      | d # rest \<Rightarrow>
          (let r1 = r\<lparr>pending := rest\<rparr> in
           if d < 253 then (Inr (ucast d), r1, scratch_put [d] b)
           else
             (case ReadFull r1 (if d = 253 then 2 else if d = 254 then 4 else 8) of
                (Inl e, r2) \<Rightarrow>
                  (Inl (if e = EOF then ErrUnexpectedEOF else e), r2, scratch_put [d] b)
              | (Inr bs, r2) \<Rightarrow> (Inr (be_value bs), r2, scratch_put bs b))))"

text \<open>
  A pair of capabilities for a value that is a byte string: the encoder writes the
  bytes, the decoder reads exactly the declared length.
\<close>

definition bytes_encoder :: "(byte list) Encoder" where
  "bytes_encoder w a b = (case Write w a of (e, w') \<Rightarrow> (e, w', b))"

definition bytes_decoder :: "(byte list) Decoder" where
  "bytes_decoder r a b len =
     (case ReadFull r (unat len) of
        (Inl e, r') \<Rightarrow> (Some e, r', a, b)
      | (Inr bs, r') \<Rightarrow> (None, r', bs, b))"

definition bytes_record :: "Type \<Rightarrow> nat \<Rightarrow> (byte list) Record" where
  "bytes_record t p =
     \<lparr>rtyp = t, val = p, sizeOf = (\<lambda>a. word_of_nat (length a)),
      encoder = Some bytes_encoder, decoder = Some bytes_decoder\<rparr>"


text \<open>
  Inputs for running the operations: a storage in which every value is the empty
  byte string, a reader over given bytes that then ends, a writer without limit, and
  the Stream of the scenario in the spec, which knows type 1 and type 3.
\<close>

definition no_values :: "(byte list) store" where
  "no_values = (\<lambda>p. [])"

definition bytes_reader :: "byte list \<Rightarrow> reader" where
  "bytes_reader bs = \<lparr>pending = bs, rerr = EOF\<rparr>"

definition buffer_writer :: writer where
  "buffer_writer = \<lparr>written = [], room = None, werr = EOF\<rparr>"

definition stream13 :: "(byte list) Stream" where
  "stream13 = \<lparr>records = [bytes_record 1 0, bytes_record 3 1], buf = zero_buf\<rparr>"

definition full_values :: "(byte list) store" where
  "full_values = no_values(0 := [1, 2, 3], 1 := [7])"

text \<open>
  An encoder that writes the eight bytes of the scratch buffer as it finds them, and
  a Stream with one record (type 2) that uses it.
\<close>

definition leaky_encoder :: "(byte list) Encoder" where
  "leaky_encoder w a b = (case Write w b of (e, w') \<Rightarrow> (e, w', b))"

definition leaky_stream :: "(byte list) Stream" where
  "leaky_stream =
     \<lparr>records = [\<lparr>rtyp = 2, val = 0, sizeOf = (\<lambda>a. 8), encoder = Some leaky_encoder,
                  decoder = Some bytes_decoder\<rparr>],
      buf = zero_buf\<rparr>"

text \<open>
  A record for a marker of presence: type 1, a value of no bytes, and neither an
  encoder nor a decoder given. And the Stream that \<open>NewStream\<close> makes of it.
\<close>

definition marker_record :: "(byte list) Record" where
  "marker_record = \<lparr>rtyp = 1, val = 0, sizeOf = (\<lambda>a. 0), encoder = None, decoder = None\<rparr>"

definition marker_stream :: "(byte list) Stream" where
  "marker_stream = \<lparr>records = [marker_record], buf = zero_buf\<rparr>"

definition fresh_addr :: "nat \<Rightarrow> nat" where
  "fresh_addr p = p + 2"

text \<open>A value of the largest length a record may declare.\<close>

definition big_value :: "byte list" where
  "big_value = replicate 65535 0"

section \<open>Properties\<close>

subsection \<open>Unsigned 64-bit arithmetic at the upper end\<close>

lemma unat_lt_max: "(t :: 64 word) \<noteq> MaxUint64 \<Longrightarrow> unat t < 18446744073709551615"
proof -
  assume ne: "t \<noteq> MaxUint64"
  have lt: "unat t < 2 ^ 64" using unsigned_less [of t, where 'a = nat] by simp
  have "unat t \<noteq> 18446744073709551615"
  proof
    assume "unat t = 18446744073709551615"
    then have "word_of_nat (unat t) = (word_of_nat 18446744073709551615 :: 64 word)" by simp
    then have "t = MaxUint64" by (simp add: MaxUint64_def)
    with ne show False by simp
  qed
  with lt show ?thesis by simp
qed

lemma unat_succ: "(t :: 64 word) \<noteq> MaxUint64 \<Longrightarrow> unat (t + 1) = unat t + 1"
  using unat_lt_max [of t] by (simp add: unat_word_ariths)

lemma succ_le_iff: "(t :: 64 word) \<noteq> MaxUint64 \<Longrightarrow> (t + 1 \<le> x) = (t < x)"
  by (auto simp: word_le_nat_alt word_less_nat_alt unat_succ)

lemma le_MaxUint64: "(x :: 64 word) \<le> MaxUint64"
  using unsigned_less [of x, where 'a = nat] by (simp add: word_le_nat_alt MaxUint64_def)

lemma MaxUint64_not_less: "\<not> MaxUint64 < (x :: 64 word)"
  using le_MaxUint64 [of x] by simp

subsection \<open>NewStream accepts exactly the strictly ascending lists\<close>

lemma NewStream_loop_iff:
  "NewStream_loop recs m ovf \<longleftrightarrow>
     (recs = [] \<or> (\<not> ovf \<and> m \<le> rtyp (hd recs) \<and> sorted_wrt (<) (map rtyp recs)))"
proof (induction recs arbitrary: m ovf)
  case Nil
  show ?case by simp
next
  case (Cons r rest)
  have unfold: "NewStream_loop (r # rest) m ovf \<longleftrightarrow>
      \<not> ovf \<and> m \<le> rtyp r \<and>
      (rest = [] \<or> (rtyp r \<noteq> MaxUint64 \<and> rtyp r + 1 \<le> rtyp (hd rest)
                     \<and> sorted_wrt (<) (map rtyp rest)))"
    using Cons.IH [of "rtyp r + 1" "if rtyp r = MaxUint64 then True else ovf"]
    by (auto simp: not_less)
  have "rest \<noteq> [] \<Longrightarrow>
      (rtyp r \<noteq> MaxUint64 \<and> rtyp r + 1 \<le> rtyp (hd rest)) = (rtyp r < rtyp (hd rest))"
    using succ_le_iff [of "rtyp r" "rtyp (hd rest)"] MaxUint64_not_less [of "rtyp (hd rest)"]
    by auto
  then have "(rest = [] \<or> (rtyp r \<noteq> MaxUint64 \<and> rtyp r + 1 \<le> rtyp (hd rest)
                     \<and> sorted_wrt (<) (map rtyp rest)))
       = sorted_wrt (<) (map rtyp (r # rest))"
    by (cases rest) auto
  with unfold show ?case by simp
qed

lemma NewStream_iff:
  "NewStream recs =
     (if sorted_wrt (<) (map rtyp recs)
      then Inr \<lparr>records = recs, buf = zero_buf\<rparr>
      else Inl ErrStreamNotCanonical)"
  unfolding NewStream_def NewStream_loop_iff by (cases recs) auto

lemma NewStream_sorted: "NewStream recs = Inr s \<Longrightarrow> sorted_wrt (<) (map rtyp (records s))"
  by (auto simp: NewStream_iff split: if_splits)

text \<open>
  Claim C5. \<open>NewStream\<close> returns \<open>ErrStreamNotCanonical\<close> for every list of
  records in which some type occurs twice, or in which some record has a smaller type
  than the record just before it, or in which some record is followed by another one
  although its type is the largest \<open>uint64\<close>. It returns a Stream holding the list
  for every list whose types are strictly ascending; the empty list and a list that
  ends in the largest type are such lists.
\<close>

theorem NewStream_canonical:
  "(\<not> distinct (map rtyp recs) \<longrightarrow> NewStream recs = Inl ErrStreamNotCanonical)
   \<and> ((\<exists>i. Suc i < length recs \<and> rtyp (recs ! Suc i) < rtyp (recs ! i))
        \<longrightarrow> NewStream recs = Inl ErrStreamNotCanonical)
   \<and> ((\<exists>i. Suc i < length recs \<and> rtyp (recs ! i) = MaxUint64)
        \<longrightarrow> NewStream recs = Inl ErrStreamNotCanonical)
   \<and> (sorted_wrt (<) (map rtyp recs)
        \<longrightarrow> NewStream recs = Inr \<lparr>records = recs, buf = zero_buf\<rparr>)"
proof -
  have dup: "\<not> sorted_wrt (<) (map rtyp recs)" if "\<not> distinct (map rtyp recs)"
    using that strict_sorted_iff [of "map rtyp recs"] by blast
  have desc: "\<not> sorted_wrt (<) (map rtyp recs)"
    if "Suc i < length recs" and "rtyp (recs ! Suc i) < rtyp (recs ! i)" for i
  proof
    assume "sorted_wrt (<) (map rtyp recs)"
    then have "map rtyp recs ! i < map rtyp recs ! Suc i"
      using that(1) by (intro sorted_wrt_nth_less) auto
    with that show False by simp
  qed
  have top: "\<not> sorted_wrt (<) (map rtyp recs)"
    if "Suc i < length recs" and "rtyp (recs ! i) = MaxUint64" for i
  proof
    assume "sorted_wrt (<) (map rtyp recs)"
    then have "map rtyp recs ! i < map rtyp recs ! Suc i"
      using that(1) by (intro sorted_wrt_nth_less) auto
    with that MaxUint64_not_less [of "rtyp (recs ! Suc i)"] show False by simp
  qed
  show ?thesis
    using dup desc top by (auto simp: NewStream_iff)
qed

theorem NewStream_canonical_witness:
  "NewStream [bytes_record 1 0, bytes_record 1 1] = Inl ErrStreamNotCanonical
   \<and> NewStream [bytes_record 2 0, bytes_record 1 1] = Inl ErrStreamNotCanonical
   \<and> NewStream [bytes_record MaxUint64 0, bytes_record 5 1] = Inl ErrStreamNotCanonical
   \<and> NewStream ([] :: (byte list) Record list) = Inr \<lparr>records = [], buf = zero_buf\<rparr>
   \<and> NewStream [bytes_record 1 0, bytes_record MaxUint64 1]
       = Inr \<lparr>records = [bytes_record 1 0, bytes_record MaxUint64 1], buf = zero_buf\<rparr>"
proof -
  have "\<exists>i. Suc i < length [bytes_record 2 0, bytes_record 1 1]
          \<and> rtyp ([bytes_record 2 0, bytes_record 1 1] ! Suc i)
              < rtyp ([bytes_record 2 0, bytes_record 1 1] ! i)"
    by (rule exI [of _ 0]) (simp add: bytes_record_def)
  moreover have "\<exists>i. Suc i < length [bytes_record MaxUint64 0, bytes_record 5 1]
          \<and> rtyp ([bytes_record MaxUint64 0, bytes_record 5 1] ! i) = MaxUint64"
    by (rule exI [of _ 0]) (simp add: bytes_record_def)
  ultimately show ?thesis
    using NewStream_canonical [of "[bytes_record 1 0, bytes_record 1 1]"]
      NewStream_canonical [of "[bytes_record 2 0, bytes_record 1 1]"]
      NewStream_canonical [of "[bytes_record MaxUint64 0, bytes_record 5 1]"]
      NewStream_canonical [of "[] :: (byte list) Record list"]
      NewStream_canonical [of "[bytes_record 1 0, bytes_record MaxUint64 1]"]
    by (simp add: bytes_record_def MaxUint64_def)
qed


subsection \<open>Running the operations on concrete inputs\<close>

lemmas run_defs =
  decode_step_def decode_init_def decode_def Decode_def DecodeWithParsedTypes_def
  stream13_def bytes_reader_def buffer_writer_def no_values_def zero_buf_def
  ReadVarInt_def WriteVarInt_def varint_bytes_def scratch_put_def
  MaxRecordSize_def MaxUint64_def getRecord.simps bytes_record_def
  call_decoder_def bytes_decoder_def call_encoder_def bytes_encoder_def Size_def
  ReadFull_def CopyN_Discard_def Write_def next_iter_def leave_def

lemma NewStream_stream13: "NewStream [bytes_record 1 0, bytes_record 3 1] = Inr stream13"
  by (simp add: NewStream_iff stream13_def bytes_record_def)

subsection \<open>The lookup cursor\<close>









subsection \<open>The loop, one iteration at a time\<close>

lemma decode_loop_Inl: "decode_step rv recs st = Inl res \<Longrightarrow> decode_loop rv recs st = res"
  by (subst decode_loop.simps) simp

lemma decode_loop_Inr:
  "decode_step rv recs st = Inr st' \<Longrightarrow> decode_loop rv recs st = decode_loop rv recs st'"
  by (subst decode_loop.simps) simp

lemma iterations_loop:
  "iterations rv recs st sts \<Longrightarrow> decode_loop rv recs st = decode_loop rv recs (last (st # sts))"
  by (induction sts arbitrary: st) (auto simp: decode_loop_Inr)

lemma decode_step_Inr:
  assumes "decode_step rv recs st = Inr st'"
  shows "\<not> overflow st \<and> min_v st \<le> typ_v st' \<and> min_v st' = typ_v st' + 1
         \<and> overflow st' = (typ_v st' = MaxUint64)"
  using assms
  by (auto simp: decode_step_def Let_def next_iter_def
           split: prod.splits sum.splits option.splits if_splits)

lemma decode_step_not_canonical:
  assumes "rv (rd st) (sbuf st) = (Inr t, r1, b1)" and "overflow st \<or> t < min_v st"
  shows "decode_step rv recs st
           = Inl (leave (st\<lparr>rd := r1, sbuf := b1, typ_v := t\<rparr>) None (Some ErrStreamNotCanonical))"
  using assms by (auto simp: decode_step_def)

text \<open>After an iteration that accepted a type, every type up to it is refused.\<close>

lemma accepted_bound:
  assumes "decode_step rv recs st0 = Inr st"
  shows "overflow st \<or> t < min_v st \<longleftrightarrow> t \<le> typ_v st \<or> typ_v st = MaxUint64"
proof -
  from decode_step_Inr [OF assms] have m: "min_v st = typ_v st + 1"
    and o: "overflow st = (typ_v st = MaxUint64)" by auto
  show ?thesis
  proof (cases "typ_v st = MaxUint64")
    case True
    then show ?thesis using o by simp
  next
    case False
    have "(t < typ_v st + 1) = (t \<le> typ_v st)"
      using succ_le_iff [OF False, of t] by (auto simp: not_le [symmetric] not_less)
    then show ?thesis using m o False by simp
  qed
qed

lemma iterations_typ_mono:
  "iterations rv recs st sts \<Longrightarrow> \<forall>x\<in>set sts. typ_v x \<le> typ_v (last sts)"
proof (induction sts arbitrary: st)
  case Nil
  then show ?case by simp
next
  case (Cons st1 sts)
  show ?case
  proof (cases sts)
    case Nil
    then show ?thesis by simp
  next
    case (Cons st2 rest)
    from Cons.prems \<open>sts = st2 # rest\<close> have s1: "decode_step rv recs st = Inr st1"
      and s2: "decode_step rv recs st1 = Inr st2" and it: "iterations rv recs st1 sts"
      by auto
    have "typ_v st1 \<le> typ_v st2"
      using decode_step_Inr [OF s1] decode_step_Inr [OF s2] accepted_bound [OF s1, of "typ_v st2"]
      by (auto simp: not_less)
    moreover have all: "\<forall>x\<in>set sts. typ_v x \<le> typ_v (last sts)"
      using Cons.IH [OF it] .
    moreover have "typ_v st2 \<le> typ_v (last sts)"
      using all \<open>sts = st2 # rest\<close> by simp
    ultimately show ?thesis using \<open>sts = st2 # rest\<close> by auto
  qed
qed

lemma iterations_last_step:
  assumes "iterations rv recs st sts" and "sts \<noteq> []"
  shows "\<exists>st0. decode_step rv recs st0 = Inr (last sts)"
  using assms
proof (induction sts arbitrary: st)
  case Nil
  then show ?case by simp
next
  case (Cons st1 sts)
  then show ?case by (cases sts) auto
qed

text \<open>
  Claim C2. In every decode, tracked or not: when some iterations have accepted
  records, and the next type read from the wire is not greater than one of the
  accepted types, or one of the accepted types is the largest \<open>uint64\<close>, the call
  returns \<open>ErrStreamNotCanonical\<close> (with a \<open>nil\<close> type set), at once after
  reading that type. Nothing is asked about the Stream's records, so this does not
  depend on whether the type is known.
\<close>

theorem decode_not_canonical:
  assumes "iterations rv (records s) (decode_init s r h pt) sts"
    and "x \<in> set sts"
    and "rv (rd (last sts)) (sbuf (last sts)) = (Inr t, r1, b1)"
    and "t \<le> typ_v x \<or> typ_v x = MaxUint64"
  shows "decode rv s r h pt
           = leave ((last sts)\<lparr>rd := r1, sbuf := b1, typ_v := t\<rparr>) None (Some ErrStreamNotCanonical)"
proof -
  from assms(2) have ne: "sts \<noteq> []" by auto
  then obtain st0 where st0: "decode_step rv (records s) st0 = Inr (last sts)"
    using iterations_last_step [OF assms(1)] by blast
  have le: "typ_v x \<le> typ_v (last sts)"
    using iterations_typ_mono [OF assms(1)] assms(2) by blast
  have "t \<le> typ_v (last sts) \<or> typ_v (last sts) = MaxUint64"
    using assms(4) le le_MaxUint64 [of "typ_v (last sts)"] by auto
  then have "overflow (last sts) \<or> t < min_v (last sts)"
    using accepted_bound [OF st0, of t] by simp
  from decode_step_not_canonical [of rv "last sts" t r1 b1 "records s", OF assms(3) this]
  have "decode_loop rv (records s) (last sts)
      = leave ((last sts)\<lparr>rd := r1, sbuf := b1, typ_v := t\<rparr>) None (Some ErrStreamNotCanonical)"
    by (rule decode_loop_Inl)
  then show ?thesis
    using iterations_loop [OF assms(1)] ne by (simp add: decode_def)
qed


theorem decode_not_canonical_witness:
  "iterations ReadVarInt (records stream13)
      (decode_init stream13 (bytes_reader [1, 0, 1, 0]) no_values None)
      [\<lparr>rd = bytes_reader [1, 0], heap = no_values(0 := []),
        sbuf = [0, 0, 0, 0, 0, 0, 0, 0], parsedTypes = None, typ_v = 1, min_v = 2,
        firstFail = None, recordIdx = 1, overflow = False\<rparr>]
   \<and> decode ReadVarInt stream13 (bytes_reader [1, 0, 1, 0]) no_values None
       = \<lparr>res_types = None, res_err = Some ErrStreamNotCanonical,
          res_rd = bytes_reader [0], res_heap = no_values(0 := []),
          res_buf = [1, 0, 0, 0, 0, 0, 0, 0]\<rparr>"
proof -
  have it: "iterations ReadVarInt (records stream13)
      (decode_init stream13 (bytes_reader [1, 0, 1, 0]) no_values None)
      [\<lparr>rd = bytes_reader [1, 0], heap = no_values(0 := []),
        sbuf = [0, 0, 0, 0, 0, 0, 0, 0], parsedTypes = None, typ_v = 1, min_v = 2,
        firstFail = None, recordIdx = 1, overflow = False\<rparr>]"
    by (simp add: run_defs)
  have rd: "ReadVarInt (bytes_reader [1, 0]) [0, 0, 0, 0, 0, 0, 0, 0]
      = (Inr 1, bytes_reader [0], [1, 0, 0, 0, 0, 0, 0, 0])"
    by (simp add: run_defs)
  from decode_not_canonical [OF it, of _ 1 "bytes_reader [0]" "[1, 0, 0, 0, 0, 0, 0, 0]"] rd it
  show ?thesis by (simp add: leave_def)
qed


subsection \<open>The paths through one iteration\<close>

lemma decode_step_eof:
  assumes "rv (rd st) (sbuf st) = (Inl EOF, r1, b1)"
  shows "decode_step rv recs st
           = Inl (leave (st\<lparr>rd := r1, sbuf := b1\<rparr>) (parsedTypes st)
                    (map_option ErrUnknownRequiredType (firstFail st)))"
  using assms by (auto simp: decode_step_def Let_def split: option.splits)

lemma decode_step_too_large:
  assumes "rv (rd st) (sbuf st) = (Inr t, r1, b1)" and "\<not> overflow st" and "\<not> t < min_v st"
    and "rv r1 b1 = (Inr len, r2, b2)" and "MaxRecordSize < len"
  shows "decode_step rv recs st
           = Inl (leave (st\<lparr>rd := r2, sbuf := b2, typ_v := t\<rparr>) None (Some ErrRecordTooLarge))"
  using assms by (simp add: decode_step_def Let_def leave_def)

lemma decode_step_unknown_required:
  assumes "rv (rd st) (sbuf st) = (Inr t, r1, b1)" and "\<not> overflow st" and "\<not> t < min_v st"
    and "rv r1 b1 = (Inr len, r2, b2)" and "len \<le> MaxRecordSize"
    and "getRecord recs t (recordIdx st) = (None, newIdx)"
    and "t mod 2 = 0" and "parsedTypes st = None"
  shows "decode_step rv recs st
           = Inl (leave (st\<lparr>rd := r2, sbuf := b2, typ_v := t\<rparr>) None
                    (Some (ErrUnknownRequiredType t)))"
  using assms by (simp add: decode_step_def not_less [symmetric] Let_def leave_def)

lemma decode_step_skip:
  assumes "rv (rd st) (sbuf st) = (Inr t, r1, b1)" and "\<not> overflow st" and "\<not> t < min_v st"
    and "rv r1 b1 = (Inr len, r2, b2)" and "len \<le> MaxRecordSize"
    and "getRecord recs t (recordIdx st) = (None, newIdx)"
    and "t mod 2 \<noteq> 0 \<or> parsedTypes st \<noteq> None"
    and "unat len \<le> length (pending r2)"
  shows "decode_step rv recs st
           = Inr (st\<lparr>rd := r2\<lparr>pending := drop (unat len) (pending r2)\<rparr>, sbuf := b2, typ_v := t,
                     firstFail := (if t mod 2 = 0 \<and> firstFail st = None then Some t
                                   else firstFail st),
                     parsedTypes := map_option (insert t) (parsedTypes st),
                     recordIdx := newIdx,
                     overflow := (t = MaxUint64),
                     min_v := t + 1\<rparr>)"
  using assms
  by (auto simp: decode_step_def not_less [symmetric] CopyN_Discard_def next_iter_def Let_def)

lemma decode_step_too_large_only:
  assumes "rv (rd st) (sbuf st) = (Inr t, r1, b1)" and "\<not> overflow st" and "\<not> t < min_v st"
    and "rv r1 b1 = (Inr len, r2, b2)" and "len \<le> MaxRecordSize"
    and "decode_step rv recs st = Inl res" and "res_err res = Some ErrRecordTooLarge"
  shows "(\<exists>rec n. getRecord recs t (recordIdx st) = (Some rec, n)
            \<and> fst (call_decoder rec r2 (heap st) b2 len) = Some ErrRecordTooLarge)
         \<or> (fst (getRecord recs t (recordIdx st)) = None
            \<and> fst (CopyN_Discard r2 (unat len)) = Some ErrRecordTooLarge)"
  using assms
  by (auto simp: decode_step_def not_less [symmetric] leave_def Let_def
           split: prod.splits option.splits if_splits)

lemma iterations_append:
  "iterations rv recs st (xs @ ys)
     = (iterations rv recs st xs \<and> iterations rv recs (last (st # xs)) ys)"
  by (induction xs arbitrary: st) auto

lemma decode_step_parsedTypes:
  assumes "decode_step rv recs st = Inr st'"
  shows "parsedTypes st' = map_option (insert (typ_v st')) (parsedTypes st)"
  using assms
  by (auto simp: decode_step_def Let_def next_iter_def
           split: prod.splits sum.splits option.splits if_splits)


lemma iterations_parsedTypes:
  "iterations rv recs st sts \<Longrightarrow>
     parsedTypes (last (st # sts)) = map_option (\<lambda>ts. ts \<union> typ_v ` set sts) (parsedTypes st)"
proof (induction sts arbitrary: st)
  case Nil
  show ?case by (cases "parsedTypes st") auto
next
  case (Cons st1 sts)
  then have s1: "decode_step rv recs st = Inr st1" and it: "iterations rv recs st1 sts" by auto
  show ?case
    using Cons.IH [OF it] decode_step_parsedTypes [OF s1]
    by (cases "parsedTypes st") auto
qed




subsection \<open>From the start of a call to the iteration at hand\<close>

lemma iterations_untracked:
  "iterations rv recs (decode_init s r h None) sts \<Longrightarrow>
     parsedTypes (last (decode_init s r h None # sts)) = None"
  using iterations_parsedTypes [of rv recs "decode_init s r h None" sts]
  by (simp add: decode_init_def)

lemma iterations_tracked:
  "iterations rv recs (decode_init s r h (Some {})) sts \<Longrightarrow>
     parsedTypes (last (decode_init s r h (Some {}) # sts)) = Some (typ_v ` set sts)"
  using iterations_parsedTypes [of rv recs "decode_init s r h (Some {})" sts]
  by (simp add: decode_init_def)

lemma iterations_snoc:
  "iterations rv recs st0 sts \<Longrightarrow> decode_step rv recs (last (st0 # sts)) = Inr st'
     \<Longrightarrow> iterations rv recs st0 (sts @ [st'])"
  by (simp add: iterations_append)

lemma decode_via_iterations:
  "iterations rv (records s) (decode_init s r h pt) sts \<Longrightarrow>
     decode rv s r h pt = decode_loop rv (records s) (last (decode_init s r h pt # sts))"
  unfolding decode_def by (rule iterations_loop)

subsection \<open>The size limit\<close>

lemma length_big_value: "length big_value = 65535"
  by (simp add: big_value_def)

text \<open>
  Claim C6. In every decode, at a record whose type was read and passed the order
  check and whose length was read: if the declared length is above 65535, the call
  returns \<open>ErrRecordTooLarge\<close>, and the reader is left exactly as the read of the
  length left it, so no byte of the value was read. A declared length up to 65535 is
  not refused by the size check: if the iteration returns \<open>ErrRecordTooLarge\<close>
  then that error came out of the record's decoder or out of the reader. And a record
  of unknown type with length exactly 65535 whose bytes are there is skipped and the
  loop goes on.
\<close>

theorem decode_record_too_large:
  assumes "st = last (decode_init s r h pt # sts)"
    and "recs = records s"
    and "iterations rv (records s) (decode_init s r h pt) sts"
    and "rv (rd st) (sbuf st) = (Inr t, r1, b1)" and "\<not> overflow st" and "\<not> t < min_v st"
    and "rv r1 b1 = (Inr len, r2, b2)"
  shows "(65535 < len \<longrightarrow>
            decode rv s r h pt
              = leave (st\<lparr>rd := r2, sbuf := b2, typ_v := t\<rparr>) None (Some ErrRecordTooLarge))
       \<and> (len \<le> 65535 \<longrightarrow>
            (\<forall>res. decode_step rv recs st = Inl res \<and> res_err res = Some ErrRecordTooLarge \<longrightarrow>
               (\<exists>rec n. getRecord recs t (recordIdx st) = (Some rec, n)
                    \<and> fst (call_decoder rec r2 (heap st) b2 len) = Some ErrRecordTooLarge)
               \<or> (fst (getRecord recs t (recordIdx st)) = None
                    \<and> fst (CopyN_Discard r2 (unat len)) = Some ErrRecordTooLarge)))
       \<and> (len = 65535 \<and> fst (getRecord recs t (recordIdx st)) = None
            \<and> (t mod 2 \<noteq> 0 \<or> parsedTypes st \<noteq> None) \<and> 65535 \<le> length (pending r2) \<longrightarrow>
            (\<exists>st'. decode_step rv recs st = Inr st'
                \<and> pending (rd st') = drop 65535 (pending r2)))"
proof (intro conjI impI)
  assume "65535 < len"
  then have "MaxRecordSize < len" by (simp add: MaxRecordSize_def)
  from decode_step_too_large [OF assms(4-7) this]
  have "decode_loop rv recs st
      = leave (st\<lparr>rd := r2, sbuf := b2, typ_v := t\<rparr>) None (Some ErrRecordTooLarge)"
    by (rule decode_loop_Inl)
  then show "decode rv s r h pt
      = leave (st\<lparr>rd := r2, sbuf := b2, typ_v := t\<rparr>) None (Some ErrRecordTooLarge)"
    unfolding decode_via_iterations [OF assms(3)] assms(1,2) .
next
  assume "len \<le> 65535"
  then have le: "len \<le> MaxRecordSize" by (simp add: MaxRecordSize_def)
  show "\<forall>res. decode_step rv recs st = Inl res \<and> res_err res = Some ErrRecordTooLarge \<longrightarrow>
               (\<exists>rec n. getRecord recs t (recordIdx st) = (Some rec, n)
                    \<and> fst (call_decoder rec r2 (heap st) b2 len) = Some ErrRecordTooLarge)
               \<or> (fst (getRecord recs t (recordIdx st)) = None
                    \<and> fst (CopyN_Discard r2 (unat len)) = Some ErrRecordTooLarge)"
    using decode_step_too_large_only [OF assms(4-7) le] by blast
next
  assume a: "len = 65535 \<and> fst (getRecord recs t (recordIdx st)) = None
            \<and> (t mod 2 \<noteq> 0 \<or> parsedTypes st \<noteq> None) \<and> 65535 \<le> length (pending r2)"
  then have le: "len \<le> MaxRecordSize" by (simp add: MaxRecordSize_def)
  from a obtain n where g: "getRecord recs t (recordIdx st) = (None, n)"
    by (cases "getRecord recs t (recordIdx st)") auto
  from a have u: "unat len \<le> length (pending r2)" by simp
  from a have p: "t mod 2 \<noteq> 0 \<or> parsedTypes st \<noteq> None" by simp
  from decode_step_skip [OF assms(4-7) le g p u] a
  show "\<exists>st'. decode_step rv recs st = Inr st' \<and> pending (rd st') = drop 65535 (pending r2)"
    by simp
qed



theorem decode_record_too_large_witness:
  "decode ReadVarInt stream13 (bytes_reader [5, 254, 0, 1, 0, 0, 7, 7]) no_values None
     = \<lparr>res_types = None, res_err = Some ErrRecordTooLarge, res_rd = bytes_reader [7, 7],
        res_heap = no_values, res_buf = [0, 1, 0, 0, 0, 0, 0, 0]\<rparr>
   \<and> (\<exists>st'. decode_step ReadVarInt (records stream13)
          (decode_init stream13 (bytes_reader (5 # 253 # 255 # 255 # big_value @ [3, 0]))
             no_values None) = Inr st'
        \<and> pending (rd st') = [3, 0])"
proof -
  have big: "decode ReadVarInt stream13 (bytes_reader [5, 254, 0, 1, 0, 0, 7, 7]) no_values None
     = \<lparr>res_types = None, res_err = Some ErrRecordTooLarge, res_rd = bytes_reader [7, 7],
        res_heap = no_values, res_buf = [0, 1, 0, 0, 0, 0, 0, 0]\<rparr>"
    using decode_record_too_large [of
        "decode_init stream13 (bytes_reader [5, 254, 0, 1, 0, 0, 7, 7]) no_values None"
        stream13 "bytes_reader [5, 254, 0, 1, 0, 0, 7, 7]" no_values None "[]"
        "records stream13" ReadVarInt 5 "bytes_reader [254, 0, 1, 0, 0, 7, 7]"
        "[5, 0, 0, 0, 0, 0, 0, 0]" 65536 "bytes_reader [7, 7]" "[0, 1, 0, 0, 0, 0, 0, 0]"]
    by (simp add: decode_init_def stream13_def bytes_reader_def zero_buf_def ReadVarInt_def
          scratch_put_def ReadFull_def be_value_def leave_def)
  have r1: "ReadVarInt (bytes_reader (5 # 253 # 255 # 255 # big_value @ [3, 0])) zero_buf
      = (Inr 5, bytes_reader (253 # 255 # 255 # big_value @ [3, 0]), [5, 0, 0, 0, 0, 0, 0, 0])"
    by (simp add: ReadVarInt_def bytes_reader_def scratch_put_def zero_buf_def)
  have r2: "ReadVarInt (bytes_reader (253 # 255 # 255 # big_value @ [3, 0]))
        [5, 0, 0, 0, 0, 0, 0, 0]
      = (Inr 65535, bytes_reader (big_value @ [3, 0]), [255, 255, 0, 0, 0, 0, 0, 0])"
    by (simp add: ReadVarInt_def ReadFull_def bytes_reader_def scratch_put_def be_value_def
          length_big_value)
  have g: "fst (getRecord (records stream13) 5 0) = None"
    by (simp add: getRecord.simps stream13_def bytes_record_def)
  have ok: "\<exists>st'. decode_step ReadVarInt (records stream13)
          (decode_init stream13 (bytes_reader (5 # 253 # 255 # 255 # big_value @ [3, 0]))
             no_values None) = Inr st'
        \<and> pending (rd st') = [3, 0]"
    using decode_record_too_large [of
        "decode_init stream13 (bytes_reader (5 # 253 # 255 # 255 # big_value @ [3, 0]))
           no_values None"
        stream13 "bytes_reader (5 # 253 # 255 # 255 # big_value @ [3, 0])" no_values None "[]"
        "records stream13" ReadVarInt 5 "bytes_reader (253 # 255 # 255 # big_value @ [3, 0])"
        "[5, 0, 0, 0, 0, 0, 0, 0]" 65535 "bytes_reader (big_value @ [3, 0])"
        "[255, 255, 0, 0, 0, 0, 0, 0]"] r1 r2 g
    by (simp add: decode_init_def stream13_def length_big_value bytes_reader_def)
  from big ok show ?thesis by blast
qed

subsection \<open>Unknown types in an untracked decode\<close>

text \<open>
  Claim C4. In an untracked decode (\<open>Decode\<close>), at a record whose header was read
  and accepted and whose type matches no record of the Stream: if the type is even,
  \<open>Decode\<close> returns \<open>ErrUnknownRequiredType\<close> with that type at once, the reader
  being left as the read of the length left it; if the type is odd and the declared
  number of bytes is there, exactly that many bytes are dropped from the reader,
  nothing else changes but the loop variables, and the loop goes into its next
  iteration.
\<close>

theorem Decode_unknown_types:
  assumes "st = last (decode_init s r h None # sts)"
    and "iterations rv (records s) (decode_init s r h None) sts"
    and "rv (rd st) (sbuf st) = (Inr t, r1, b1)" and "\<not> overflow st" and "\<not> t < min_v st"
    and "rv r1 b1 = (Inr len, r2, b2)" and "len \<le> 65535"
    and "getRecord (records s) t (recordIdx st) = (None, newIdx)"
  shows "(t mod 2 = 0 \<longrightarrow>
            Decode rv s r h = (Some (ErrUnknownRequiredType t), r2, heap st, s\<lparr>buf := b2\<rparr>))
       \<and> (t mod 2 \<noteq> 0 \<and> unat len \<le> length (pending r2) \<longrightarrow>
            iterations rv (records s) (decode_init s r h None)
              (sts @ [st\<lparr>rd := r2\<lparr>pending := drop (unat len) (pending r2)\<rparr>, sbuf := b2,
                         typ_v := t, recordIdx := newIdx, overflow := (t = MaxUint64),
                         min_v := t + 1\<rparr>]))"
proof (intro conjI impI)
  have le: "len \<le> MaxRecordSize" using assms(7) by (simp add: MaxRecordSize_def)
  have un: "parsedTypes st = None"
    using iterations_untracked [OF assms(2)] assms(1) by simp
  {
    assume even: "t mod 2 = 0"
    from decode_step_unknown_required [OF assms(3-6) le assms(8) even un]
    have "decode_loop rv (records s) st
        = leave (st\<lparr>rd := r2, sbuf := b2, typ_v := t\<rparr>) None (Some (ErrUnknownRequiredType t))"
      by (rule decode_loop_Inl)
    then have "decode rv s r h None
        = leave (st\<lparr>rd := r2, sbuf := b2, typ_v := t\<rparr>) None (Some (ErrUnknownRequiredType t))"
      unfolding decode_via_iterations [OF assms(2)] assms(1) .
    then show "Decode rv s r h = (Some (ErrUnknownRequiredType t), r2, heap st, s\<lparr>buf := b2\<rparr>)"
      by (simp add: Decode_def leave_def)
  }
  {
    assume odd: "t mod 2 \<noteq> 0 \<and> unat len \<le> length (pending r2)"
    then have p: "t mod 2 \<noteq> 0 \<or> parsedTypes st \<noteq> None" and u: "unat len \<le> length (pending r2)"
      by simp_all
    from decode_step_skip [OF assms(3-6) le assms(8) p u] odd un
    have "decode_step rv (records s) st
        = Inr (st\<lparr>rd := r2\<lparr>pending := drop (unat len) (pending r2)\<rparr>, sbuf := b2,
                         typ_v := t, recordIdx := newIdx, overflow := (t = MaxUint64),
                         min_v := t + 1\<rparr>)"
      by simp
    then show "iterations rv (records s) (decode_init s r h None)
              (sts @ [st\<lparr>rd := r2\<lparr>pending := drop (unat len) (pending r2)\<rparr>, sbuf := b2,
                         typ_v := t, recordIdx := newIdx, overflow := (t = MaxUint64),
                         min_v := t + 1\<rparr>])"
      using iterations_snoc [OF assms(2)] unfolding assms(1) by blast
  }
qed


theorem Decode_unknown_types_witness:
  "Decode ReadVarInt stream13 (bytes_reader [2, 1, 1]) no_values
     = (Some (ErrUnknownRequiredType 2), bytes_reader [1], no_values,
        stream13\<lparr>buf := [1, 0, 0, 0, 0, 0, 0, 0]\<rparr>)
   \<and> iterations ReadVarInt (records stream13)
        (decode_init stream13 (bytes_reader [5, 2, 9, 9, 7]) no_values None)
        [\<lparr>rd = bytes_reader [7], heap = no_values, sbuf = [2, 0, 0, 0, 0, 0, 0, 0],
          parsedTypes = None, typ_v = 5, min_v = 6, firstFail = None, recordIdx = 2,
          overflow = False\<rparr>]"
proof -
  have even: "Decode ReadVarInt stream13 (bytes_reader [2, 1, 1]) no_values
     = (Some (ErrUnknownRequiredType 2), bytes_reader [1], no_values,
        stream13\<lparr>buf := [1, 0, 0, 0, 0, 0, 0, 0]\<rparr>)"
    using Decode_unknown_types [of
        "decode_init stream13 (bytes_reader [2, 1, 1]) no_values None"
        stream13 "bytes_reader [2, 1, 1]" no_values "[]" ReadVarInt 2
        "bytes_reader [1, 1]" "[2, 0, 0, 0, 0, 0, 0, 0]" 1 "bytes_reader [1]"
        "[1, 0, 0, 0, 0, 0, 0, 0]" 1]
    by (simp add: decode_init_def stream13_def bytes_reader_def zero_buf_def ReadVarInt_def
          scratch_put_def getRecord.simps bytes_record_def)
  have odd: "iterations ReadVarInt (records stream13)
        (decode_init stream13 (bytes_reader [5, 2, 9, 9, 7]) no_values None)
        [\<lparr>rd = bytes_reader [7], heap = no_values, sbuf = [2, 0, 0, 0, 0, 0, 0, 0],
          parsedTypes = None, typ_v = 5, min_v = 6, firstFail = None, recordIdx = 2,
          overflow = False\<rparr>]"
    using Decode_unknown_types [of
        "decode_init stream13 (bytes_reader [5, 2, 9, 9, 7]) no_values None"
        stream13 "bytes_reader [5, 2, 9, 9, 7]" no_values "[]" ReadVarInt 5
        "bytes_reader [2, 9, 9, 7]" "[5, 0, 0, 0, 0, 0, 0, 0]" 2 "bytes_reader [9, 9, 7]"
        "[2, 0, 0, 0, 0, 0, 0, 0]" 2]
    by (simp add: decode_init_def stream13_def bytes_reader_def zero_buf_def ReadVarInt_def
          scratch_put_def getRecord.simps bytes_record_def MaxUint64_def)
  from even odd show ?thesis by blast
qed


subsection \<open>Tracked decoding\<close>

lemma decode_loop_run:
  "\<exists>sts res. iterations rv recs st sts \<and> decode_step rv recs (last (st # sts)) = Inl res
      \<and> decode_loop rv recs st = res"
proof (induction rv recs st rule: decode_loop.induct)
  case (1 rv recs st)
  show ?case
  proof (cases "decode_step rv recs st")
    case (Inl res)
    then have "iterations rv recs st [] \<and> decode_step rv recs (last (st # [])) = Inl res
        \<and> decode_loop rv recs st = res"
      by (simp add: decode_loop_Inl)
    then show ?thesis by blast
  next
    case (Inr st')
    from "1.IH" [OF Inr] obtain sts res where
      "iterations rv recs st' sts" "decode_step rv recs (last (st' # sts)) = Inl res"
      "decode_loop rv recs st' = res" by blast
    then have "iterations rv recs st (st' # sts)
        \<and> decode_step rv recs (last (st # st' # sts)) = Inl res
        \<and> decode_loop rv recs st = res"
      using Inr by (simp add: decode_loop_Inr)
    then show ?thesis by blast
  qed
qed

lemma decode_step_not_eof:
  assumes "decode_step rv recs st = Inl res" and "fst (rv (rd st) (sbuf st)) \<noteq> Inl EOF"
  shows "res_types res = None \<and> res_err res \<noteq> None"
  using assms
  by (auto simp: decode_step_def Let_def leave_def
           split: prod.splits sum.splits option.splits if_splits)




subsection \<open>What a tracked decode returns with an error\<close>

text \<open>
  Claim C3, as the spec states it, does not hold: the type set comes back as
  \<open>nil\<close> with every error but the deferred one. Here the first record (type 1) is
  accepted and the second repeats its type; the call returns
  \<open>ErrStreamNotCanonical\<close> and no set, not the set holding type 1.
\<close>

theorem DecodeWithParsedTypes_partial_set_counterexample:
  "fst (DecodeWithParsedTypes ReadVarInt stream13 (bytes_reader [1, 0, 1, 0]) no_values) = None
   \<and> fst (DecodeWithParsedTypes ReadVarInt stream13 (bytes_reader [1, 0, 1, 0]) no_values)
        \<noteq> Some {1}
   \<and> fst (snd (DecodeWithParsedTypes ReadVarInt stream13 (bytes_reader [1, 0, 1, 0]) no_values))
        = Some ErrStreamNotCanonical"
  by (simp add: run_defs decode_loop.simps)


text \<open>
  Claim C3, amended. A call of \<open>DecodeWithParsedTypes\<close> runs through some
  iterations and then returns from one. If that last iteration met a clean end of
  input when reading the type, the call returns the set of the types of all records
  met, with no error or with the deferred \<open>ErrUnknownRequiredType\<close>. In every
  other case it returns an error and \<open>nil\<close> in place of the set.
\<close>

theorem DecodeWithParsedTypes_types_returned:
  assumes "l = last (decode_init s r h (Some {}) # sts)"
    and "iterations rv (records s) (decode_init s r h (Some {})) sts"
    and "decode_step rv (records s) l = Inl res"
  shows "DecodeWithParsedTypes rv s r h
           = (res_types res, res_err res, res_rd res, res_heap res, s\<lparr>buf := res_buf res\<rparr>)
       \<and> (fst (rv (rd l) (sbuf l)) = Inl EOF \<longrightarrow>
            res_types res = Some (typ_v ` set sts)
            \<and> res_err res = map_option ErrUnknownRequiredType (firstFail l))
       \<and> (fst (rv (rd l) (sbuf l)) \<noteq> Inl EOF \<longrightarrow> res_types res = None \<and> res_err res \<noteq> None)"
proof (intro conjI impI)
  have "decode_loop rv (records s) l = res"
    using assms(3) by (rule decode_loop_Inl)
  then have "decode rv s r h (Some {}) = res"
    unfolding decode_via_iterations [OF assms(2)] assms(1) .
  then show "DecodeWithParsedTypes rv s r h
           = (res_types res, res_err res, res_rd res, res_heap res, s\<lparr>buf := res_buf res\<rparr>)"
    by (simp add: DecodeWithParsedTypes_def)
next
  assume eof: "fst (rv (rd l) (sbuf l)) = Inl EOF"
  then obtain r1 b1 where e: "rv (rd l) (sbuf l) = (Inl EOF, r1, b1)"
    by (cases "rv (rd l) (sbuf l)") auto
  from decode_step_eof [of rv l r1 b1 "records s", OF e] assms(3)
  have "res = leave (l\<lparr>rd := r1, sbuf := b1\<rparr>) (parsedTypes l)
                (map_option ErrUnknownRequiredType (firstFail l))" by simp
  then show "res_types res = Some (typ_v ` set sts)"
    and "res_err res = map_option ErrUnknownRequiredType (firstFail l)"
    using iterations_tracked [OF assms(2)] assms(1) by (simp_all add: leave_def)
next
  assume "fst (rv (rd l) (sbuf l)) \<noteq> Inl EOF"
  from decode_step_not_eof [OF assms(3) this]
  show "res_types res = None" and "res_err res \<noteq> None" by simp_all
qed


theorem DecodeWithParsedTypes_types_returned_witness:
  "DecodeWithParsedTypes ReadVarInt stream13 (bytes_reader [1, 0, 3, 0]) no_values
     = (Some {1, 3}, None, bytes_reader [], no_values(0 := [], 1 := []),
        stream13\<lparr>buf := [0, 0, 0, 0, 0, 0, 0, 0]\<rparr>)
   \<and> DecodeWithParsedTypes ReadVarInt stream13 (bytes_reader [1, 0, 3]) no_values
     = (None, Some ErrUnexpectedEOF, bytes_reader [], no_values(0 := []),
        stream13\<lparr>buf := [3, 0, 0, 0, 0, 0, 0, 0]\<rparr>)"
proof -
  let ?s1 = "\<lambda>bs. \<lparr>rd = bytes_reader bs, heap = no_values(0 := []),
      sbuf = [0, 0, 0, 0, 0, 0, 0, 0], parsedTypes = Some {1}, typ_v = 1, min_v = 2,
      firstFail = None, recordIdx = 1, overflow = False\<rparr>"
  let ?s2 = "\<lparr>rd = bytes_reader [], heap = no_values(0 := [], 1 := []),
      sbuf = [0, 0, 0, 0, 0, 0, 0, 0], parsedTypes = Some {3, 1}, typ_v = 3, min_v = 4,
      firstFail = None, recordIdx = 2, overflow = False\<rparr>"
  have it1: "iterations ReadVarInt (records stream13)
      (decode_init stream13 (bytes_reader [1, 0, 3, 0]) no_values (Some {})) [?s1 [3, 0], ?s2]"
    by (simp add: run_defs)
  have ret1: "decode_step ReadVarInt (records stream13) ?s2
      = Inl \<lparr>res_types = Some {3, 1}, res_err = None, res_rd = bytes_reader [],
             res_heap = no_values(0 := [], 1 := []), res_buf = [0, 0, 0, 0, 0, 0, 0, 0]\<rparr>"
    by (simp add: run_defs)
  have it2: "iterations ReadVarInt (records stream13)
      (decode_init stream13 (bytes_reader [1, 0, 3]) no_values (Some {})) [?s1 [3]]"
    by (simp add: run_defs)
  have ret2: "decode_step ReadVarInt (records stream13) (?s1 [3])
      = Inl \<lparr>res_types = None, res_err = Some ErrUnexpectedEOF, res_rd = bytes_reader [],
             res_heap = no_values(0 := []), res_buf = [3, 0, 0, 0, 0, 0, 0, 0]\<rparr>"
    by (simp add: run_defs)
  have a: "DecodeWithParsedTypes ReadVarInt stream13 (bytes_reader [1, 0, 3, 0]) no_values
     = (Some {1, 3}, None, bytes_reader [], no_values(0 := [], 1 := []),
        stream13\<lparr>buf := [0, 0, 0, 0, 0, 0, 0, 0]\<rparr>)"
    using DecodeWithParsedTypes_types_returned [OF _ it1, of ?s2, OF _ ret1]
    by (simp add: insert_commute)
  have b: "DecodeWithParsedTypes ReadVarInt stream13 (bytes_reader [1, 0, 3]) no_values
     = (None, Some ErrUnexpectedEOF, bytes_reader [], no_values(0 := []),
        stream13\<lparr>buf := [3, 0, 0, 0, 0, 0, 0, 0]\<rparr>)"
    using DecodeWithParsedTypes_types_returned [OF _ it2, of "?s1 [3]", OF _ ret2]
    by simp
  from a b show ?thesis by blast
qed


subsection \<open>Encode\<close>

lemma run_steps_append:
  "run_steps (xs @ ys) w b =
     (case run_steps xs w b of
        (Some e, w', b') \<Rightarrow> (Some e, w', b')
      | (None, w', b') \<Rightarrow> run_steps ys w' b')"
  by (induction xs arbitrary: w b) (auto split: prod.splits option.splits)

lemma Encode_loop_steps:
  "Encode_loop wv recs w h b = run_steps (concat (map (encode_record_steps wv h) recs)) w b"
  by (induction recs arbitrary: w b)
     (auto simp: encode_record_steps_def split: prod.splits option.splits)

lemma run_steps_first_failure:
  "run_steps fs w b = (Some e, w2, b2) \<Longrightarrow>
     \<exists>pre g post w1 b1. fs = pre @ g # post \<and> run_steps pre w b = (None, w1, b1)
        \<and> g w1 b1 = (Some e, w2, b2)"
proof (induction fs arbitrary: w b)
  case Nil
  then show ?case by simp
next
  case (Cons f fs)
  obtain r w' b' where f: "f w b = (r, w', b')" by (cases "f w b") auto
  show ?case
  proof (cases r)
    case (Some e')
    with Cons.prems f have "f w b = (Some e, w2, b2)" by simp
    then have "f # fs = [] @ f # fs \<and> run_steps [] w b = (None, w, b) \<and> f w b = (Some e, w2, b2)"
      by simp
    then show ?thesis by blast
  next
    case None
    with Cons.prems f have "run_steps fs w' b' = (Some e, w2, b2)" by simp
    from Cons.IH [OF this] obtain pre g post w1 b1 where
      "fs = pre @ g # post" "run_steps pre w' b' = (None, w1, b1)" "g w1 b1 = (Some e, w2, b2)"
      by blast
    then have "f # fs = (f # pre) @ g # post \<and> run_steps (f # pre) w b = (None, w1, b1)
        \<and> g w1 b1 = (Some e, w2, b2)"
      using f None by simp
    then show ?thesis by blast
  qed
qed

text \<open>
  Claim C9. \<open>Encode\<close> is the run of the write steps that the spec lists: for the
  records in the order in which the Stream stores them, the type as a VarInt, then
  the size of the value as a VarInt, then the record's encoder. For a Stream made by
  \<open>NewStream\<close> the stored order is the order given, and it is ascending. When the steps before
  some step all succeed and that step fails, \<open>Encode\<close> returns the error of that
  step as it is, no later step runs, and the writer is the one that step left, so
  what was written stays written. And every failure of \<open>Encode\<close> is of this kind.
\<close>

theorem Encode_in_order:
  "Encode wv s w h = Encode_spec wv s w h
   \<and> (NewStream recs = Inr s \<longrightarrow> records s = recs \<and> sorted_wrt (<) (map rtyp (records s)))
   \<and> (concat (map (encode_record_steps wv h) (records s)) = pre @ g # post
        \<and> run_steps pre w (buf s) = (None, w1, b1) \<and> g w1 b1 = (Some e, w2, b2)
      \<longrightarrow> Encode wv s w h = (Some e, w2, s\<lparr>buf := b2\<rparr>))
   \<and> (fst (Encode wv s w h) = Some e' \<longrightarrow>
        (\<exists>pre g post w1 b1 w2 b2.
            concat (map (encode_record_steps wv h) (records s)) = pre @ g # post
          \<and> run_steps pre w (buf s) = (None, w1, b1) \<and> g w1 b1 = (Some e', w2, b2)
          \<and> Encode wv s w h = (Some e', w2, s\<lparr>buf := b2\<rparr>)))"
proof (intro conjI impI)
  show eq: "Encode wv s w h = Encode_spec wv s w h"
    by (simp add: Encode_def Encode_spec_def Encode_loop_steps)
  {
    assume n: "NewStream recs = Inr s"
    then show "records s = recs" by (auto simp: NewStream_iff split: if_splits)
    from n show "sorted_wrt (<) (map rtyp (records s))" by (rule NewStream_sorted)
  }
  {
    assume a: "concat (map (encode_record_steps wv h) (records s)) = pre @ g # post
        \<and> run_steps pre w (buf s) = (None, w1, b1) \<and> g w1 b1 = (Some e, w2, b2)"
    then show "Encode wv s w h = (Some e, w2, s\<lparr>buf := b2\<rparr>)"
      by (simp add: eq Encode_spec_def run_steps_append)
  }
  {
    assume f: "fst (Encode wv s w h) = Some e'"
    obtain w2 b2 where r: "run_steps (concat (map (encode_record_steps wv h) (records s))) w (buf s)
        = (Some e', w2, b2)"
      using f by (auto simp: eq Encode_spec_def split: prod.splits)
    from run_steps_first_failure [OF r] obtain pre g post w1 b1 where
      d: "concat (map (encode_record_steps wv h) (records s)) = pre @ g # post"
        "run_steps pre w (buf s) = (None, w1, b1)" "g w1 b1 = (Some e', w2, b2)"
      by blast
    have "Encode wv s w h = (Some e', w2, s\<lparr>buf := b2\<rparr>)"
      using r by (simp add: eq Encode_spec_def)
    with d show "\<exists>pre g post w1 b1 w2 b2.
            concat (map (encode_record_steps wv h) (records s)) = pre @ g # post
          \<and> run_steps pre w (buf s) = (None, w1, b1) \<and> g w1 b1 = (Some e', w2, b2)
          \<and> Encode wv s w h = (Some e', w2, s\<lparr>buf := b2\<rparr>)"
      by blast
  }
qed


theorem Encode_in_order_witness:
  "sorted_wrt (<) (map rtyp (records stream13))
   \<and> Encode WriteVarInt stream13 buffer_writer full_values
     = (None, \<lparr>written = [1, 3, 1, 2, 3, 3, 1, 7], room = None, werr = EOF\<rparr>,
        stream13\<lparr>buf := [1, 0, 0, 0, 0, 0, 0, 0]\<rparr>)
   \<and> Encode WriteVarInt stream13 (buffer_writer\<lparr>room := Some 4, werr := ErrOther 28\<rparr>)
        full_values
     = (Some (ErrOther 28), \<lparr>written = [1, 3, 1, 2], room = Some 0, werr = ErrOther 28\<rparr>,
        stream13\<lparr>buf := [3, 0, 0, 0, 0, 0, 0, 0]\<rparr>)"
proof -
  let ?w = "buffer_writer\<lparr>room := Some 4, werr := ErrOther 28\<rparr>"
  let ?r0 = "bytes_record 1 0" and ?r1 = "bytes_record 3 1"
  let ?pre = "[\<lambda>w b. WriteVarInt w (rtyp ?r0) b, \<lambda>w b. WriteVarInt w (Size ?r0 full_values) b]"
  let ?g = "\<lambda>w b. call_encoder ?r0 w full_values b"
  let ?post = "encode_record_steps WriteVarInt full_values ?r1"
  have split: "concat (map (encode_record_steps WriteVarInt full_values) (records stream13))
      = ?pre @ ?g # ?post"
    by (simp add: encode_record_steps_def stream13_def)
  have pre: "run_steps ?pre ?w (buf stream13)
      = (None, \<lparr>written = [1, 3], room = Some 2, werr = ErrOther 28\<rparr>, [3, 0, 0, 0, 0, 0, 0, 0])"
    by (simp add: run_defs full_values_def)
  have g: "?g \<lparr>written = [1, 3], room = Some 2, werr = ErrOther 28\<rparr> [3, 0, 0, 0, 0, 0, 0, 0]
      = (Some (ErrOther 28), \<lparr>written = [1, 3, 1, 2], room = Some 0, werr = ErrOther 28\<rparr>,
         [3, 0, 0, 0, 0, 0, 0, 0])"
    by (simp add: run_defs full_values_def)
  have fail: "Encode WriteVarInt stream13 ?w full_values
     = (Some (ErrOther 28), \<lparr>written = [1, 3, 1, 2], room = Some 0, werr = ErrOther 28\<rparr>,
        stream13\<lparr>buf := [3, 0, 0, 0, 0, 0, 0, 0]\<rparr>)"
    using Encode_in_order [where wv = WriteVarInt and s = stream13 and w = ?w
        and h = full_values and pre = ?pre and g = ?g and post = ?post] split pre g
    by blast
  have ok: "Encode WriteVarInt stream13 buffer_writer full_values
     = (None, \<lparr>written = [1, 3, 1, 2, 3, 3, 1, 7], room = None, werr = EOF\<rparr>,
        stream13\<lparr>buf := [1, 0, 0, 0, 0, 0, 0, 0]\<rparr>)"
    using Encode_in_order [where wv = WriteVarInt and s = stream13 and w = buffer_writer
        and h = full_values]
    by (simp add: Encode_spec_def encode_record_steps_def run_defs full_values_def)
  have asc: "sorted_wrt (<) (map rtyp (records stream13))"
    using Encode_in_order [where s = stream13 and recs = "[bytes_record 1 0, bytes_record 3 1]"]
      NewStream_stream13
    by blast
  from asc ok fail show ?thesis by blast
qed


subsection \<open>Round trip\<close>

lemma decode_step_known:
  assumes "rv (rd st) (sbuf st) = (Inr t, r1, b1)" and "\<not> overflow st" and "\<not> t < min_v st"
    and "rv r1 b1 = (Inr len, r2, b2)" and "len \<le> MaxRecordSize"
    and "getRecord recs t (recordIdx st) = (Some rec, newIdx)"
    and "call_decoder rec r2 (heap st) b2 len = (None, r3, h3, b3)"
  shows "decode_step rv recs st
           = Inr (st\<lparr>rd := r3, heap := h3, sbuf := b3, typ_v := t,
                     parsedTypes := map_option (insert t) (parsedTypes st),
                     recordIdx := newIdx,
                     overflow := (t = MaxUint64),
                     min_v := t + 1\<rparr>)"
  using assms
  by (auto simp: decode_step_def not_less [symmetric] next_iter_def Let_def)

lemma getRecord_here:
  "k < length recs \<Longrightarrow> rtyp (recs ! k) = t \<Longrightarrow> getRecord recs t k = (Some (recs ! k), k + 1)"
  by (subst getRecord.simps) simp

lemma Encode_loop_wire:
  assumes "room w = None"
    and "\<forall>rec\<in>set recs. varint_roundtrip wv rv (rtyp rec) (vb (rtyp rec))
            \<and> varint_roundtrip wv rv (Size rec h) (vb (Size rec h))
            \<and> value_roundtrip rec (h (val rec)) (eb rec)"
  shows "fst (Encode_loop wv recs w h b) = None
       \<and> fst (snd (Encode_loop wv recs w h b)) = w\<lparr>written := written w @ wire vb eb h recs\<rparr>"
  using assms
proof (induction recs arbitrary: w b)
  case Nil
  then show ?case by (simp add: wire_def)
next
  case (Cons rec rest)
  from Cons.prems have vt: "varint_roundtrip wv rv (rtyp rec) (vb (rtyp rec))"
    and vs: "varint_roundtrip wv rv (Size rec h) (vb (Size rec h))"
    and vr: "value_roundtrip rec (h (val rec)) (eb rec)" by simp_all
  obtain e1 w1 b1 where s1: "wv w (rtyp rec) b = (e1, w1, b1)" by (cases "wv w (rtyp rec) b") auto
  have e1: "e1 = None" and w1: "w1 = w\<lparr>written := written w @ vb (rtyp rec)\<rparr>"
    using vt Cons.prems(1) s1 unfolding varint_roundtrip_def by (metis fst_conv snd_conv)+
  have room1: "room w1 = None" using w1 Cons.prems(1) by simp
  obtain e2 w2 b2 where s2: "wv w1 (Size rec h) b1 = (e2, w2, b2)"
    by (cases "wv w1 (Size rec h) b1") auto
  have e2: "e2 = None" and w2: "w2 = w1\<lparr>written := written w1 @ vb (Size rec h)\<rparr>"
    using vs room1 s2 unfolding varint_roundtrip_def by (metis fst_conv snd_conv)+
  have room2: "room w2 = None" using w2 room1 by simp
  from vr obtain enc where enc: "encoder rec = Some enc"
    and encl: "\<forall>w b. room w = None \<longrightarrow> fst (enc w (h (val rec)) b) = None
                 \<and> fst (snd (enc w (h (val rec)) b)) = w\<lparr>written := written w @ eb rec\<rparr>"
    unfolding value_roundtrip_def by blast
  obtain e3 w3 b3 where s3: "call_encoder rec w2 h b2 = (e3, w3, b3)"
    by (cases "call_encoder rec w2 h b2") auto
  have e3: "e3 = None" and w3: "w3 = w2\<lparr>written := written w2 @ eb rec\<rparr>"
    using encl room2 s3 enc unfolding call_encoder_def by (metis fst_conv snd_conv option.simps(5))+
  have room3: "room w3 = None" using w3 room2 by simp
  have rest: "\<forall>rec\<in>set rest. varint_roundtrip wv rv (rtyp rec) (vb (rtyp rec))
            \<and> varint_roundtrip wv rv (Size rec h) (vb (Size rec h))
            \<and> value_roundtrip rec (h (val rec)) (eb rec)"
    using Cons.prems(2) by simp
  have unfold: "Encode_loop wv (rec # rest) w h b = Encode_loop wv rest w3 h b3"
    using s1 s2 s3 e1 e2 e3 by simp
  show ?case
    unfolding unfold using Cons.IH [OF room3 rest, of b3] w1 w2 w3
    by (simp add: wire_def)
qed


lemma rebind_nth:
  "k < length recs \<Longrightarrow> rebind f recs ! k = (recs ! k)\<lparr>val := f (val (recs ! k))\<rparr>"
  by (simp add: rebind_def)

lemma decode_loop_wire:
  fixes recs :: "'a Record list"
  assumes sorted: "sorted_wrt (<) (map rtyp recs)"
    and inj: "inj_on f (val ` set recs)"
    and laws: "\<forall>rec\<in>set recs. varint_roundtrip wv rv (rtyp rec) (vb (rtyp rec))
            \<and> varint_roundtrip wv rv (Size rec h) (vb (Size rec h))
            \<and> value_roundtrip rec (h (val rec)) (eb rec)"
    and ce: "clean_end rv"
  shows "k \<le> length recs \<Longrightarrow>
         rd st = \<lparr>pending = wire vb eb h (drop k recs), rerr = EOF\<rparr> \<Longrightarrow>
         recordIdx st = k \<Longrightarrow> firstFail st = None \<Longrightarrow>
         (k < length recs \<longrightarrow> \<not> overflow st \<and> min_v st \<le> rtyp (recs ! k)) \<Longrightarrow>
         (\<forall>j<k. heap st (f (val (recs ! j))) = h (val (recs ! j))) \<Longrightarrow>
         res_err (decode_loop rv (rebind f recs) st) = None
       \<and> res_rd (decode_loop rv (rebind f recs) st) = \<lparr>pending = [], rerr = EOF\<rparr>
       \<and> (\<forall>rec\<in>set recs. res_heap (decode_loop rv (rebind f recs) st) (f (val rec))
             = h (val rec))"
proof (induction "length recs - k" arbitrary: k st)
  case 0
  then have k: "k = length recs" by simp
  obtain x r1 b1 where e: "rv (rd st) (sbuf st) = (x, r1, b1)"
    by (cases "rv (rd st) (sbuf st)") auto
  have "rd st = \<lparr>pending = [], rerr = EOF\<rparr>" using "0.prems"(2) k by (simp add: wire_def)
  with ce e have x: "x = Inl EOF" and r1: "r1 = \<lparr>pending = [], rerr = EOF\<rparr>"
    unfolding clean_end_def by (metis fst_conv snd_conv)+
  have "decode_loop rv (rebind f recs) st
      = leave (st\<lparr>rd := r1, sbuf := b1\<rparr>) (parsedTypes st)
          (map_option ErrUnknownRequiredType (firstFail st))"
    using decode_step_eof [of rv st r1 b1 "rebind f recs"] e x by (simp add: decode_loop_Inl)
  moreover have "\<forall>rec\<in>set recs. heap st (f (val rec)) = h (val rec)"
    using "0.prems"(6) k by (metis in_set_conv_nth)
  ultimately show ?case using "0.prems"(4) r1 by (simp add: leave_def)
next
  case (Suc n)
  then have k: "k < length recs" by simp
  let ?rec = "recs ! k"
  let ?t = "rtyp ?rec"
  let ?sz = "Size ?rec h"
  let ?rest = "wire vb eb h (drop (Suc k) recs)"
  have mem: "?rec \<in> set recs" using k by simp
  from laws mem have vt: "varint_roundtrip wv rv ?t (vb ?t)"
    and vs: "varint_roundtrip wv rv ?sz (vb ?sz)"
    and vr: "value_roundtrip ?rec (h (val ?rec)) (eb ?rec)" by blast+
  have pend: "rd st = \<lparr>pending = vb ?t @ (vb ?sz @ eb ?rec @ ?rest), rerr = EOF\<rparr>"
    using Suc.prems(2) k by (simp add: wire_def Cons_nth_drop_Suc [symmetric])
  obtain x1 r1 b1 where s1: "rv (rd st) (sbuf st) = (x1, r1, b1)"
    by (cases "rv (rd st) (sbuf st)") auto
  have x1: "x1 = Inr ?t" and r1: "r1 = \<lparr>pending = vb ?sz @ (eb ?rec @ ?rest), rerr = EOF\<rparr>"
    using vt s1 unfolding varint_roundtrip_def pend by (metis fst_conv snd_conv)+
  obtain x2 r2 b2 where s2: "rv r1 b1 = (x2, r2, b2)" by (cases "rv r1 b1") auto
  have x2: "x2 = Inr ?sz" and r2: "r2 = \<lparr>pending = eb ?rec @ ?rest, rerr = EOF\<rparr>"
    using vs s2 unfolding varint_roundtrip_def r1 by (metis fst_conv snd_conv)+
  from vr obtain dec where dec: "decoder ?rec = Some dec"
    and szle: "sizeOf ?rec (h (val ?rec)) \<le> MaxRecordSize"
    and decl: "\<forall>rest e a0 b.
        fst (dec \<lparr>pending = eb ?rec @ rest, rerr = e\<rparr> a0 b (sizeOf ?rec (h (val ?rec)))) = None
        \<and> fst (snd (dec \<lparr>pending = eb ?rec @ rest, rerr = e\<rparr> a0 b (sizeOf ?rec (h (val ?rec)))))
            = \<lparr>pending = rest, rerr = e\<rparr>
        \<and> fst (snd (snd (dec \<lparr>pending = eb ?rec @ rest, rerr = e\<rparr> a0 b
                             (sizeOf ?rec (h (val ?rec)))))) = h (val ?rec)"
    unfolding value_roundtrip_def by blast
  let ?rec2 = "rebind f recs ! k"
  have rec2: "?rec2 = ?rec\<lparr>val := f (val ?rec)\<rparr>" using k by (rule rebind_nth)
  have len2: "k < length (rebind f recs)" using k by (simp add: rebind_def)
  have g: "getRecord (rebind f recs) ?t (recordIdx st) = (Some ?rec2, k + 1)"
    using getRecord_here [OF len2, of ?t] rec2 Suc.prems(3) by simp
  obtain e3 r3 a3 b3 where d: "dec r2 (heap st (f (val ?rec))) b2 ?sz = (e3, r3, a3, b3)"
    by (cases "dec r2 (heap st (f (val ?rec))) b2 ?sz") auto
  have e3: "e3 = None" and r3: "r3 = \<lparr>pending = ?rest, rerr = EOF\<rparr>" and a3: "a3 = h (val ?rec)"
    using decl d unfolding r2 Size_def by (metis fst_conv snd_conv)+
  have cd: "call_decoder ?rec2 r2 (heap st) b2 ?sz
      = (None, r3, (heap st)(f (val ?rec) := h (val ?rec)), b3)"
    using d e3 a3 dec by (simp add: call_decoder_def rec2)
  have ov: "\<not> overflow st" and mn: "\<not> ?t < min_v st" using Suc.prems(5) k by auto
  have le: "?sz \<le> MaxRecordSize" using szle by (simp add: Size_def)
  let ?st' = "st\<lparr>rd := r3, heap := (heap st)(f (val ?rec) := h (val ?rec)), sbuf := b3,
                 typ_v := ?t, parsedTypes := map_option (insert ?t) (parsedTypes st),
                 recordIdx := k + 1, overflow := (?t = MaxUint64), min_v := ?t + 1\<rparr>"
  have step: "decode_step rv (rebind f recs) st = Inr ?st'"
    using decode_step_known [of rv st ?t r1 b1 ?sz r2 b2 "rebind f recs" ?rec2 "k + 1" r3
        "(heap st)(f (val ?rec) := h (val ?rec))" b3] s1 x1 s2 x2 ov mn le g cd
    by simp
  have p1: "Suc k \<le> length recs" using k by simp
  have p2: "rd ?st' = \<lparr>pending = wire vb eb h (drop (Suc k) recs), rerr = EOF\<rparr>"
    using r3 by simp
  have p5: "Suc k < length recs \<longrightarrow> \<not> overflow ?st' \<and> min_v ?st' \<le> rtyp (recs ! Suc k)"
  proof
    assume sk: "Suc k < length recs"
    have lt: "?t < rtyp (recs ! Suc k)"
      using sorted_wrt_nth_less [of "(<)" "map rtyp recs" k "Suc k"] sorted sk by simp
    then have ne: "?t \<noteq> MaxUint64" using MaxUint64_not_less [of "rtyp (recs ! Suc k)"] by auto
    show "\<not> overflow ?st' \<and> min_v ?st' \<le> rtyp (recs ! Suc k)"
      using ne lt succ_le_iff [OF ne, of "rtyp (recs ! Suc k)"] by simp
  qed
  have p6: "\<forall>j<Suc k. heap ?st' (f (val (recs ! j))) = h (val (recs ! j))"
  proof (intro allI impI)
    fix j assume j: "j < Suc k"
    show "heap ?st' (f (val (recs ! j))) = h (val (recs ! j))"
    proof (cases "f (val (recs ! j)) = f (val ?rec)")
      case True
      have "val (recs ! j) = val ?rec"
        using inj True j k by (auto simp: inj_on_def)
      then show ?thesis by simp
    next
      case False
      then have "j \<noteq> k" by auto
      then have "j < k" using j by simp
      then show ?thesis using Suc.prems(6) False by simp
    qed
  qed
  have n: "n = length recs - Suc k" using Suc.hyps(2) by simp
  have "decode_loop rv (rebind f recs) st = decode_loop rv (rebind f recs) ?st'"
    using step by (rule decode_loop_Inr)
  moreover have "res_err (decode_loop rv (rebind f recs) ?st') = None
       \<and> res_rd (decode_loop rv (rebind f recs) ?st') = \<lparr>pending = [], rerr = EOF\<rparr>
       \<and> (\<forall>rec\<in>set recs. res_heap (decode_loop rv (rebind f recs) ?st') (f (val rec))
             = h (val rec))"
    using Suc.hyps(1) [OF n p1 p2 _ _ p5 p6] Suc.prems(4) by simp
  ultimately show ?case by simp
qed


text \<open>
  The round trip, for records that have both capabilities. Take a Stream made by
  \<open>NewStream\<close> from a list of records, values in
  the caller's storage that are in range and that the records' own capabilities
  write and read back, and VarInt routines that read back what they write for the
  types and sizes at hand. Take a second Stream made by \<open>NewStream\<close> from the same
  list bound to other storage (\<open>rebind\<close>, with distinct references kept distinct).
  Then \<open>Encode\<close> of the first Stream into an empty writer without limit succeeds;
  \<open>Decode\<close> of the second Stream on the bytes written succeeds, whatever its
  storage held before, and uses up the input; and afterwards the value of every
  record of the second Stream is the value of the matching record of the first.
\<close>

theorem Encode_Decode_roundtrip:
  assumes "NewStream recs = Inr s"
    and "NewStream (rebind f recs) = Inr s2"
    and "inj_on f (val ` set recs)"
    and "\<forall>rec\<in>set recs. varint_roundtrip wv rv (rtyp rec) (vb (rtyp rec))
            \<and> varint_roundtrip wv rv (Size rec h) (vb (Size rec h))
            \<and> value_roundtrip rec (h (val rec)) (eb rec)"
    and "clean_end rv"
    and "room w = None" and "written w = []"
    and "sent = written (fst (snd (Encode wv s w h)))"
    and "got = Decode rv s2 \<lparr>pending = sent, rerr = EOF\<rparr> h0"
  shows "fst (Encode wv s w h) = None
       \<and> sent = wire vb eb h recs
       \<and> fst got = None
       \<and> fst (snd got) = \<lparr>pending = [], rerr = EOF\<rparr>
       \<and> (\<forall>rec\<in>set recs. fst (snd (snd got)) (f (val rec)) = h (val rec))"
proof -
  have rs: "records s = recs" and rs2: "records s2 = rebind f recs"
    using assms(1,2) by (auto simp: NewStream_iff split: if_splits)
  have sorted: "sorted_wrt (<) (map rtyp recs)"
    using NewStream_sorted [OF assms(1)] rs by simp
  have enc: "fst (Encode_loop wv recs w h (buf s)) = None
       \<and> fst (snd (Encode_loop wv recs w h (buf s))) = w\<lparr>written := written w @ wire vb eb h recs\<rparr>"
    using Encode_loop_wire [OF assms(6) assms(4)] .
  have e1: "fst (Encode wv s w h) = None"
    using enc by (cases "Encode_loop wv recs w h (buf s)") (simp add: Encode_def rs)
  have e2: "sent = wire vb eb h recs"
    using enc assms(7,8) by (cases "Encode_loop wv recs w h (buf s)") (simp add: Encode_def rs)
  let ?st = "decode_init s2 \<lparr>pending = sent, rerr = EOF\<rparr> h0 None"
  have dl: "res_err (decode_loop rv (rebind f recs) ?st) = None
       \<and> res_rd (decode_loop rv (rebind f recs) ?st) = \<lparr>pending = [], rerr = EOF\<rparr>
       \<and> (\<forall>rec\<in>set recs. res_heap (decode_loop rv (rebind f recs) ?st) (f (val rec))
             = h (val rec))"
    by (rule decode_loop_wire [OF sorted assms(3) assms(4) assms(5), of 0])
       (simp_all add: decode_init_def e2)
  then show ?thesis
    using e1 e2 assms(9) by (simp add: Decode_def decode_def rs2 Let_def)
qed

theorem Encode_Decode_roundtrip_witness:
  "fst (Encode WriteVarInt stream13 buffer_writer full_values) = None
   \<and> written (fst (snd (Encode WriteVarInt stream13 buffer_writer full_values)))
       = [1, 3, 1, 2, 3, 3, 1, 7]
   \<and> fst (Decode ReadVarInt
            \<lparr>records = rebind fresh_addr [bytes_record 1 0, bytes_record 3 1], buf = zero_buf\<rparr>
            (bytes_reader [1, 3, 1, 2, 3, 3, 1, 7]) full_values) = None
   \<and> fst (snd (snd (Decode ReadVarInt
            \<lparr>records = rebind fresh_addr [bytes_record 1 0, bytes_record 3 1], buf = zero_buf\<rparr>
            (bytes_reader [1, 3, 1, 2, 3, 3, 1, 7]) full_values))) 2 = [1, 2, 3]
   \<and> fst (snd (snd (Decode ReadVarInt
            \<lparr>records = rebind fresh_addr [bytes_record 1 0, bytes_record 3 1], buf = zero_buf\<rparr>
            (bytes_reader [1, 3, 1, 2, 3, 3, 1, 7]) full_values))) 3 = [7]"
proof -
  let ?recs = "[bytes_record 1 0, bytes_record 3 1]"
  let ?s2 = "\<lparr>records = rebind fresh_addr ?recs, buf = zero_buf\<rparr>"
  let ?eb = "\<lambda>rec :: (byte list) Record. full_values (val rec)"
  have n2: "NewStream (rebind fresh_addr ?recs) = Inr ?s2"
    by (simp add: NewStream_iff rebind_def bytes_record_def)
  have inj: "inj_on fresh_addr (val ` set ?recs)"
    by (simp add: inj_on_def fresh_addr_def)
  have v: "varint_roundtrip WriteVarInt ReadVarInt 1 (varint_bytes 1)"
    "varint_roundtrip WriteVarInt ReadVarInt 3 (varint_bytes 3)"
    by (simp_all add: varint_roundtrip_def WriteVarInt_def ReadVarInt_def varint_bytes_def
          Write_def scratch_put_def)
  have r: "value_roundtrip (bytes_record 1 0) [1, 2, 3] [1, 2, 3]"
    "value_roundtrip (bytes_record 3 1) [7] [7]"
    by (simp_all add: value_roundtrip_def bytes_record_def bytes_encoder_def bytes_decoder_def
          Write_def ReadFull_def MaxRecordSize_def)
  have laws: "\<forall>rec\<in>set ?recs.
      varint_roundtrip WriteVarInt ReadVarInt (rtyp rec) (varint_bytes (rtyp rec))
      \<and> varint_roundtrip WriteVarInt ReadVarInt (Size rec full_values)
           (varint_bytes (Size rec full_values))
      \<and> value_roundtrip rec (full_values (val rec)) (?eb rec)"
    using v r by (simp add: Size_def bytes_record_def full_values_def no_values_def)
  have ce: "clean_end ReadVarInt"
    by (simp add: clean_end_def ReadVarInt_def)
  have w: "wire varint_bytes ?eb full_values ?recs = [1, 3, 1, 2, 3, 3, 1, 7]"
    by (simp add: wire_def varint_bytes_def Size_def bytes_record_def full_values_def
          no_values_def)
  have rw: "room buffer_writer = None" "written buffer_writer = []"
    by (simp_all add: buffer_writer_def)
  note T = Encode_Decode_roundtrip [OF NewStream_stream13 n2 inj laws ce rw refl refl,
      of full_values]
  from T w have sent: "written (fst (snd (Encode WriteVarInt stream13 buffer_writer full_values)))
      = [1, 3, 1, 2, 3, 3, 1, 7]"
    by simp
  from T have T': "fst (Encode WriteVarInt stream13 buffer_writer full_values) = None
       \<and> fst (Decode ReadVarInt ?s2 (bytes_reader [1, 3, 1, 2, 3, 3, 1, 7]) full_values) = None
       \<and> (\<forall>rec\<in>set ?recs.
             fst (snd (snd (Decode ReadVarInt ?s2 (bytes_reader [1, 3, 1, 2, 3, 3, 1, 7])
                              full_values))) (fresh_addr (val rec)) = full_values (val rec))"
    unfolding sent bytes_reader_def by blast
  have k: "fresh_addr (val (bytes_record 1 0)) = 2" "fresh_addr (val (bytes_record 3 1)) = 3"
    "full_values (val (bytes_record 1 0)) = [1, 2, 3]"
    "full_values (val (bytes_record 3 1)) = [7]"
    by (simp_all add: fresh_addr_def bytes_record_def full_values_def no_values_def)
  from T' have "fst (snd (snd (Decode ReadVarInt ?s2 (bytes_reader [1, 3, 1, 2, 3, 3, 1, 7])
                              full_values))) (fresh_addr (val (bytes_record 1 0)))
                = full_values (val (bytes_record 1 0))"
    and "fst (snd (snd (Decode ReadVarInt ?s2 (bytes_reader [1, 3, 1, 2, 3, 3, 1, 7])
                              full_values))) (fresh_addr (val (bytes_record 3 1)))
                = full_values (val (bytes_record 3 1))"
    by simp_all
  then have "fst (snd (snd (Decode ReadVarInt ?s2 (bytes_reader [1, 3, 1, 2, 3, 3, 1, 7])
                              full_values))) 2 = [1, 2, 3]"
    and "fst (snd (snd (Decode ReadVarInt ?s2 (bytes_reader [1, 3, 1, 2, 3, 3, 1, 7])
                              full_values))) 3 = [7]"
    unfolding k by blast+
  with sent T' show ?thesis by blast
qed



subsection \<open>What a call leaves in the Stream\<close>

lemma Encode_loop_blind:
  assumes "scratch_blind_writer wv" and "\<forall>rec\<in>set recs. scratch_blind_record rec"
  shows "fst (Encode_loop wv recs w h b) = fst (Encode_loop wv recs w h b')
       \<and> fst (snd (Encode_loop wv recs w h b)) = fst (snd (Encode_loop wv recs w h b'))"
  using assms(2)
proof (induction recs arbitrary: w b b')
  case Nil
  show ?case by simp
next
  case (Cons rec rest)
  obtain e1 w1 b1 where s1: "wv w (rtyp rec) b = (e1, w1, b1)" by (cases "wv w (rtyp rec) b") auto
  obtain e1' w1' b1' where s1': "wv w (rtyp rec) b' = (e1', w1', b1')"
    by (cases "wv w (rtyp rec) b'") auto
  have a1: "e1' = e1" "w1' = w1"
    using assms(1) s1 s1' unfolding scratch_blind_writer_def by (metis fst_conv snd_conv)+
  obtain e2 w2 b2 where s2: "wv w1 (Size rec h) b1 = (e2, w2, b2)"
    by (cases "wv w1 (Size rec h) b1") auto
  obtain e2' w2' b2' where s2': "wv w1 (Size rec h) b1' = (e2', w2', b2')"
    by (cases "wv w1 (Size rec h) b1'") auto
  have a2: "e2' = e2" "w2' = w2"
    using assms(1) s2 s2' unfolding scratch_blind_writer_def by (metis fst_conv snd_conv)+
  obtain e3 w3 b3 where s3: "call_encoder rec w2 h b2 = (e3, w3, b3)"
    by (cases "call_encoder rec w2 h b2") auto
  obtain e3' w3' b3' where s3': "call_encoder rec w2 h b2' = (e3', w3', b3')"
    by (cases "call_encoder rec w2 h b2'") auto
  have blind: "scratch_blind_record rec" using Cons.prems by simp
  have a3: "e3' = e3 \<and> w3' = w3"
  proof (cases "encoder rec")
    case None
    then show ?thesis using s3 s3' by (simp add: call_encoder_def)
  next
    case (Some enc)
    then have "fst (enc w2 (h (val rec)) b2) = fst (enc w2 (h (val rec)) b2')
        \<and> fst (snd (enc w2 (h (val rec)) b2)) = fst (snd (enc w2 (h (val rec)) b2'))"
      using blind unfolding scratch_blind_record_def by blast
    then show ?thesis using s3 s3' Some by (simp add: call_encoder_def)
  qed
  have rest: "\<forall>rec\<in>set rest. scratch_blind_record rec" using Cons.prems by simp
  show ?case
    using s1 s1' a1 s2 s2' a2 s3 s3' a3 Cons.IH [OF rest, of w3 b3 b3']
    by (cases e1; cases e2; cases e3) simp_all
qed


lemma getRecord_mem: "getRecord recs t idx = (Some rec, n) \<Longrightarrow> rec \<in> set recs"
proof (induction recs t idx rule: getRecord.induct)
  case (1 recs t idx)
  from "1.prems" show ?case
    by (subst (asm) getRecord.simps) (auto split: if_splits intro: "1.IH")
qed

lemma call_decoder_blind:
  assumes "scratch_blind_record rec"
    and "call_decoder rec r h b l = (e, r3, h3, b3)"
  shows "\<exists>b3'. call_decoder rec r h b' l = (e, r3, h3, b3')"
proof (cases "decoder rec")
  case None
  then show ?thesis using assms(2) by (simp add: call_decoder_def)
next
  case (Some dec)
  obtain e' r' a' c' where d': "dec r (h (val rec)) b' l = (e', r', a', c')"
    by (cases "dec r (h (val rec)) b' l") auto
  obtain e0 r0 a0 c0 where d: "dec r (h (val rec)) b l = (e0, r0, a0, c0)"
    by (cases "dec r (h (val rec)) b l") auto
  have "fst (dec r (h (val rec)) b l) = fst (dec r (h (val rec)) b' l)
      \<and> fst (snd (dec r (h (val rec)) b l)) = fst (snd (dec r (h (val rec)) b' l))
      \<and> fst (snd (snd (dec r (h (val rec)) b l))) = fst (snd (snd (dec r (h (val rec)) b' l)))"
    using assms(1) Some unfolding scratch_blind_record_def by blast
  then have "e' = e0" "r' = r0" "a' = a0" using d d' by simp_all
  then show ?thesis using assms(2) Some d d' by (simp add: call_decoder_def)
qed

lemma decode_step_blind:
  assumes br: "scratch_blind_reader rv" and bc: "\<forall>rec\<in>set recs. scratch_blind_record rec"
  shows "map_sum (\<lambda>res. res\<lparr>res_buf := []\<rparr>) (\<lambda>st1. st1\<lparr>sbuf := []\<rparr>)
           (decode_step rv recs (st\<lparr>sbuf := b\<rparr>))
       = map_sum (\<lambda>res. res\<lparr>res_buf := []\<rparr>) (\<lambda>st1. st1\<lparr>sbuf := []\<rparr>)
           (decode_step rv recs st)"
proof -
  obtain x1 r1 b1 where s1: "rv (rd st) (sbuf st) = (x1, r1, b1)"
    by (cases "rv (rd st) (sbuf st)") auto
  obtain x1' r1' b1' where s1': "rv (rd st) b = (x1', r1', b1')"
    by (cases "rv (rd st) b") auto
  have a1: "x1' = x1" "r1' = r1"
    using br s1 s1' unfolding scratch_blind_reader_def by (metis fst_conv snd_conv)+
  show ?thesis
  proof (cases x1)
    case (Inl e)
    then show ?thesis
      using s1 s1' a1 by (auto simp: decode_step_def Let_def leave_def split: option.splits)
  next
    case t: (Inr t)
    show ?thesis
    proof (cases "overflow st \<or> t < min_v st")
      case True
      then show ?thesis
        using s1 s1' a1 t by (auto simp: decode_step_def Let_def leave_def)
    next
      case canon: False
      obtain x2 r2 b2 where s2: "rv r1 b1 = (x2, r2, b2)" by (cases "rv r1 b1") auto
      obtain x2' r2' b2' where s2': "rv r1 b1' = (x2', r2', b2')" by (cases "rv r1 b1'") auto
      have a2: "x2' = x2" "r2' = r2"
        using br s2 s2' unfolding scratch_blind_reader_def by (metis fst_conv snd_conv)+
      show ?thesis
      proof (cases x2)
        case (Inl e)
        then show ?thesis
          using s1 s1' a1 t canon s2 s2' a2 by (auto simp: decode_step_def Let_def leave_def)
      next
        case len: (Inr len)
        show ?thesis
        proof (cases "MaxRecordSize < len")
          case True
          then show ?thesis
            using s1 s1' a1 t canon s2 s2' a2 len
            by (auto simp: decode_step_def Let_def leave_def)
        next
          case small: False
          obtain ro n where g: "getRecord recs t (recordIdx st) = (ro, n)"
            by (cases "getRecord recs t (recordIdx st)") auto
          show ?thesis
          proof (cases ro)
            case None
            then show ?thesis
              using s1 s1' a1 t canon s2 s2' a2 len small g
              by (auto simp: decode_step_def Let_def leave_def next_iter_def
                       split: prod.splits option.splits)
          next
            case (Some rec)
            have "rec \<in> set recs" using g Some getRecord_mem by fast
            then have blind: "scratch_blind_record rec" using bc by simp
            obtain e3 r3 h3 b3 where c: "call_decoder rec r2 (heap st) b2 len = (e3, r3, h3, b3)"
              by (cases "call_decoder rec r2 (heap st) b2 len") auto
            from call_decoder_blind [OF blind c, of b2'] obtain b3' where
              c': "call_decoder rec r2 (heap st) b2' len = (e3, r3, h3, b3')" by blast
            show ?thesis
              using s1 s1' a1 t canon s2 s2' a2 len small g Some c c'
              by (cases e3) (auto simp: decode_step_def Let_def leave_def next_iter_def)
          qed
        qed
      qed
    qed
  qed
qed

lemma dstate_but_buf: "st1'\<lparr>sbuf := []\<rparr> = st1\<lparr>sbuf := []\<rparr> \<Longrightarrow> st1' = st1\<lparr>sbuf := sbuf st1'\<rparr>"
  by (cases st1, cases st1') simp

lemma dresult_but_buf:
  "res'\<lparr>res_buf := []\<rparr> = res\<lparr>res_buf := []\<rparr> \<Longrightarrow> res' = res\<lparr>res_buf := res_buf res'\<rparr>"
  by (cases res, cases res') simp

lemma decode_loop_blind:
  assumes br: "scratch_blind_reader rv" and bc: "\<forall>rec\<in>set recs. scratch_blind_record rec"
  shows "\<exists>b'. decode_loop rv recs (st\<lparr>sbuf := b\<rparr>) = (decode_loop rv recs st)\<lparr>res_buf := b'\<rparr>"
  using assms
proof (induction rv recs st arbitrary: b rule: decode_loop.induct)
  case (1 rv recs st)
  note blind = decode_step_blind [OF "1.prems", where st = st and b = b]
  show ?case
  proof (cases "decode_step rv recs st")
    case (Inl res)
    with blind obtain res' where s: "decode_step rv recs (st\<lparr>sbuf := b\<rparr>) = Inl res'"
      and "res'\<lparr>res_buf := []\<rparr> = res\<lparr>res_buf := []\<rparr>"
      by (cases "decode_step rv recs (st\<lparr>sbuf := b\<rparr>)") auto
    then have "res' = res\<lparr>res_buf := res_buf res'\<rparr>" by (simp add: dresult_but_buf)
    then show ?thesis using Inl s by (auto simp: decode_loop_Inl)
  next
    case (Inr st1)
    with blind obtain st1' where s: "decode_step rv recs (st\<lparr>sbuf := b\<rparr>) = Inr st1'"
      and "st1'\<lparr>sbuf := []\<rparr> = st1\<lparr>sbuf := []\<rparr>"
      by (cases "decode_step rv recs (st\<lparr>sbuf := b\<rparr>)") auto
    then have e: "st1' = st1\<lparr>sbuf := sbuf st1'\<rparr>" by (simp add: dstate_but_buf)
    from "1.IH" [OF Inr "1.prems", of "sbuf st1'"] obtain b' where
      "decode_loop rv recs (st1\<lparr>sbuf := sbuf st1'\<rparr>) = (decode_loop rv recs st1)\<lparr>res_buf := b'\<rparr>"
      by blast
    then have "decode_loop rv recs st1' = (decode_loop rv recs st1)\<lparr>res_buf := b'\<rparr>"
      using e by simp
    then show ?thesis using Inr s by (auto simp: decode_loop_Inr)
  qed
qed

text \<open>
  Claim C10, as the spec states it, does not hold in its last part. The Stream below
  is a valid one; its encoder writes the scratch buffer as it finds it. \<open>Decode\<close>
  of an input holding one unknown odd record (type 301, empty) succeeds and changes
  nothing in the caller's storage, but leaves the byte 45 in the scratch buffer.
  \<open>Encode\<close> into the same writer with the same storage then writes other bytes
  after that \<open>Decode\<close> than it writes without it.
\<close>

theorem scratch_history_counterexample:
  "NewStream (records leaky_stream) = Inr leaky_stream
   \<and> Decode ReadVarInt leaky_stream (bytes_reader [253, 1, 45, 0]) no_values
       = (None, bytes_reader [], no_values, leaky_stream\<lparr>buf := [0, 45, 0, 0, 0, 0, 0, 0]\<rparr>)
   \<and> Encode WriteVarInt leaky_stream buffer_writer no_values
       = (None, buffer_writer\<lparr>written := [2, 8, 8, 0, 0, 0, 0, 0, 0, 0]\<rparr>,
          leaky_stream\<lparr>buf := [8, 0, 0, 0, 0, 0, 0, 0]\<rparr>)
   \<and> Encode WriteVarInt (leaky_stream\<lparr>buf := [0, 45, 0, 0, 0, 0, 0, 0]\<rparr>) buffer_writer no_values
       = (None, buffer_writer\<lparr>written := [2, 8, 8, 45, 0, 0, 0, 0, 0, 0]\<rparr>,
          leaky_stream\<lparr>buf := [8, 45, 0, 0, 0, 0, 0, 0]\<rparr>)"
  by (simp add: NewStream_iff leaky_stream_def leaky_encoder_def Encode_def be_value_def
        decode_loop.simps run_defs)


text \<open>
  Claim C10, amended. \<open>Encode\<close>, \<open>Decode\<close> and \<open>DecodeWithParsedTypes\<close>
  leave the Stream as it was but for the scratch buffer: the record list (types,
  value references, capabilities) is the same afterwards. And when the VarInt
  routines and the capabilities of the records are blind to the scratch buffer, the
  outcome of a call (its error, its type set, what it does to the channel and to the
  caller's storage) on a given channel and storage is the same whatever the scratch
  buffer holds, hence whatever calls were made on the Stream before.
\<close>

theorem Stream_frame:
  "snd (snd (Encode wv s w h)) = s\<lparr>buf := buf (snd (snd (Encode wv s w h)))\<rparr>
   \<and> snd (snd (snd (Decode rv s r h))) = s\<lparr>buf := buf (snd (snd (snd (Decode rv s r h))))\<rparr>
   \<and> snd (snd (snd (snd (DecodeWithParsedTypes rv s r h))))
       = s\<lparr>buf := buf (snd (snd (snd (snd (DecodeWithParsedTypes rv s r h)))))\<rparr>
   \<and> (scratch_blind_writer wv \<and> (\<forall>rec\<in>set (records s). scratch_blind_record rec) \<longrightarrow>
         fst (Encode wv (s\<lparr>buf := b0\<rparr>) w h) = fst (Encode wv s w h)
         \<and> fst (snd (Encode wv (s\<lparr>buf := b0\<rparr>) w h)) = fst (snd (Encode wv s w h)))
   \<and> (scratch_blind_reader rv \<and> (\<forall>rec\<in>set (records s). scratch_blind_record rec) \<longrightarrow>
         fst (Decode rv (s\<lparr>buf := b0\<rparr>) r h) = fst (Decode rv s r h)
         \<and> fst (snd (Decode rv (s\<lparr>buf := b0\<rparr>) r h)) = fst (snd (Decode rv s r h))
         \<and> fst (snd (snd (Decode rv (s\<lparr>buf := b0\<rparr>) r h))) = fst (snd (snd (Decode rv s r h)))
         \<and> fst (DecodeWithParsedTypes rv (s\<lparr>buf := b0\<rparr>) r h)
             = fst (DecodeWithParsedTypes rv s r h)
         \<and> fst (snd (DecodeWithParsedTypes rv (s\<lparr>buf := b0\<rparr>) r h))
             = fst (snd (DecodeWithParsedTypes rv s r h))
         \<and> fst (snd (snd (DecodeWithParsedTypes rv (s\<lparr>buf := b0\<rparr>) r h)))
             = fst (snd (snd (DecodeWithParsedTypes rv s r h)))
         \<and> fst (snd (snd (snd (DecodeWithParsedTypes rv (s\<lparr>buf := b0\<rparr>) r h))))
             = fst (snd (snd (snd (DecodeWithParsedTypes rv s r h)))))"
proof (intro conjI impI)
  show "snd (snd (Encode wv s w h)) = s\<lparr>buf := buf (snd (snd (Encode wv s w h)))\<rparr>"
    by (simp add: Encode_def case_prod_beta)
  show "snd (snd (snd (Decode rv s r h))) = s\<lparr>buf := buf (snd (snd (snd (Decode rv s r h))))\<rparr>"
    by (simp add: Decode_def Let_def)
  show "snd (snd (snd (snd (DecodeWithParsedTypes rv s r h))))
       = s\<lparr>buf := buf (snd (snd (snd (snd (DecodeWithParsedTypes rv s r h)))))\<rparr>"
    by (simp add: DecodeWithParsedTypes_def Let_def)
next
  assume a: "scratch_blind_writer wv \<and> (\<forall>rec\<in>set (records s). scratch_blind_record rec)"
  then have e: "fst (Encode_loop wv (records s) w h b0) = fst (Encode_loop wv (records s) w h (buf s))
       \<and> fst (snd (Encode_loop wv (records s) w h b0))
           = fst (snd (Encode_loop wv (records s) w h (buf s)))"
    using Encode_loop_blind [of wv "records s" w h b0 "buf s"] by blast
  from e show "fst (Encode wv (s\<lparr>buf := b0\<rparr>) w h) = fst (Encode wv s w h)"
    by (simp add: Encode_def case_prod_beta)
  from e show "fst (snd (Encode wv (s\<lparr>buf := b0\<rparr>) w h)) = fst (snd (Encode wv s w h))"
    by (simp add: Encode_def case_prod_beta)
next
  assume a: "scratch_blind_reader rv \<and> (\<forall>rec\<in>set (records s). scratch_blind_record rec)"
  have d: "\<exists>b'. decode rv (s\<lparr>buf := b0\<rparr>) r h pt = (decode rv s r h pt)\<lparr>res_buf := b'\<rparr>" for pt
    using decode_loop_blind [where rv = rv and recs = "records s"
        and st = "decode_init s r h pt" and b = b0] a
    by (simp add: decode_def decode_init_def)
  from d [of None] obtain b1 where
    d1: "decode rv (s\<lparr>buf := b0\<rparr>) r h None = (decode rv s r h None)\<lparr>res_buf := b1\<rparr>" by blast
  from d [of "Some {}"] obtain b2 where
    d2: "decode rv (s\<lparr>buf := b0\<rparr>) r h (Some {}) = (decode rv s r h (Some {}))\<lparr>res_buf := b2\<rparr>"
    by blast
  show "fst (Decode rv (s\<lparr>buf := b0\<rparr>) r h) = fst (Decode rv s r h)"
    and "fst (snd (Decode rv (s\<lparr>buf := b0\<rparr>) r h)) = fst (snd (Decode rv s r h))"
    and "fst (snd (snd (Decode rv (s\<lparr>buf := b0\<rparr>) r h))) = fst (snd (snd (Decode rv s r h)))"
    using d1 by (simp_all add: Decode_def Let_def)
  show "fst (DecodeWithParsedTypes rv (s\<lparr>buf := b0\<rparr>) r h)
             = fst (DecodeWithParsedTypes rv s r h)"
    and "fst (snd (DecodeWithParsedTypes rv (s\<lparr>buf := b0\<rparr>) r h))
             = fst (snd (DecodeWithParsedTypes rv s r h))"
    and "fst (snd (snd (DecodeWithParsedTypes rv (s\<lparr>buf := b0\<rparr>) r h)))
             = fst (snd (snd (DecodeWithParsedTypes rv s r h)))"
    and "fst (snd (snd (snd (DecodeWithParsedTypes rv (s\<lparr>buf := b0\<rparr>) r h))))
             = fst (snd (snd (snd (DecodeWithParsedTypes rv s r h))))"
    using d2 by (simp_all add: DecodeWithParsedTypes_def Let_def)
qed

theorem Stream_frame_witness:
  "fst (snd (Encode WriteVarInt (stream13\<lparr>buf := [0, 45, 0, 0, 0, 0, 0, 0]\<rparr>)
                 buffer_writer full_values))
       = fst (snd (Encode WriteVarInt stream13 buffer_writer full_values))
   \<and> fst (snd (snd (Decode ReadVarInt (stream13\<lparr>buf := [0, 45, 0, 0, 0, 0, 0, 0]\<rparr>)
                      (bytes_reader [1, 1, 5]) no_values)))
       = fst (snd (snd (Decode ReadVarInt stream13 (bytes_reader [1, 1, 5]) no_values)))
   \<and> records (snd (snd (snd (Decode ReadVarInt stream13 (bytes_reader [1, 1, 5]) no_values))))
       = records stream13"
proof -
  have bw: "scratch_blind_writer WriteVarInt"
    by (simp add: scratch_blind_writer_def WriteVarInt_def split: prod.splits)
  have brd: "scratch_blind_reader ReadVarInt"
    by (auto simp: scratch_blind_reader_def ReadVarInt_def Let_def
             split: list.splits prod.splits sum.splits)
  have bc: "\<forall>rec\<in>set (records stream13). scratch_blind_record rec"
    by (auto simp: stream13_def bytes_record_def scratch_blind_record_def bytes_encoder_def
          bytes_decoder_def split: prod.splits sum.splits)
  have e: "fst (snd (Encode WriteVarInt (stream13\<lparr>buf := [0, 45, 0, 0, 0, 0, 0, 0]\<rparr>)
                 buffer_writer full_values))
       = fst (snd (Encode WriteVarInt stream13 buffer_writer full_values))"
    using Stream_frame [where wv = WriteVarInt and s = stream13 and w = buffer_writer
        and h = full_values and ?b0.0 = "[0, 45, 0, 0, 0, 0, 0, 0]"] bw bc by blast
  have d: "fst (snd (snd (Decode ReadVarInt (stream13\<lparr>buf := [0, 45, 0, 0, 0, 0, 0, 0]\<rparr>)
                      (bytes_reader [1, 1, 5]) no_values)))
       = fst (snd (snd (Decode ReadVarInt stream13 (bytes_reader [1, 1, 5]) no_values)))"
    using Stream_frame [where rv = ReadVarInt and s = stream13
        and r = "bytes_reader [1, 1, 5]" and h = no_values
        and ?b0.0 = "[0, 45, 0, 0, 0, 0, 0, 0]"] brd bc by blast
  have f: "snd (snd (snd (Decode ReadVarInt stream13 (bytes_reader [1, 1, 5]) no_values)))
      = stream13\<lparr>buf := buf (snd (snd (snd (Decode ReadVarInt stream13
                                               (bytes_reader [1, 1, 5]) no_values))))\<rparr>"
    using Stream_frame [where rv = ReadVarInt and s = stream13
        and r = "bytes_reader [1, 1, 5]" and h = no_values]
    by blast
  have "records (snd (snd (snd (Decode ReadVarInt stream13 (bytes_reader [1, 1, 5]) no_values))))
      = records stream13"
    by (subst f) simp
  with e d show ?thesis by blast
qed


subsection \<open>The round trip of a record without capabilities\<close>

text \<open>
  Claim C7 asks the round trip of every Stream built from a valid list of records.
  A record whose encoder and decoder are omitted is valid, and \<open>NewStream\<close> means
  to give it the no-op capabilities \<open>ENOP\<close> and \<open>DNOP\<close>; but it assigns them to
  the loop variable, a copy of the record, and the Stream keeps the record with both
  capabilities \<open>nil\<close>. For the Stream of one such record (type 1, a value of no
  bytes), \<open>NewStream\<close> succeeds; \<open>Encode\<close> writes the type and the length 0 and
  then panics on calling the encoder; and \<open>Decode\<close> of the bytes 01 00, which are
  what \<open>Encode\<close> with a no-op encoder would have written, reads the type and the
  length and then panics on calling the decoder. With the no-op capabilities in
  place both calls would succeed and leave the value as it is.
\<close>

theorem nil_capability_roundtrip_panics:
  "NewStream [marker_record] = Inr marker_stream
   \<and> Encode WriteVarInt marker_stream buffer_writer no_values
       = (Some Panic, buffer_writer\<lparr>written := [1, 0]\<rparr>, marker_stream)
   \<and> Decode ReadVarInt marker_stream (bytes_reader [1, 0]) no_values
       = (Some Panic, bytes_reader [], no_values, marker_stream)"
  by (simp add: NewStream_iff marker_stream_def marker_record_def Encode_def
        decode_loop.simps run_defs)

subsection \<open>The VarInt codec and the byte-string capabilities fit the round trip\<close>

text \<open>
  The hypotheses of the round trip can be met for every type, every size and every
  byte string of at most 65535 bytes: the VarInt codec above reads back what it
  writes, and so do the capabilities of \<open>bytes_record\<close>.
\<close>

lemma small_bits:
  assumes "unat (v :: 64 word) < 2 ^ n" and "bit v k"
  shows "k < n"
proof -
  have "bit (unat v) k" using assms(2) by (simp add: bit_simps)
  moreover have "take_bit n (unat v) = unat v" using assms(1) by (rule take_bit_nat_eq_self)
  ultimately have "bit (take_bit n (unat v)) k" by simp
  then show ?thesis by (simp add: bit_take_bit_iff)
qed

lemma take_bit_small: "unat (v :: 64 word) < 2 ^ n \<Longrightarrow> take_bit n v = v"
  by (rule bit_eqI) (auto simp: bit_take_bit_iff dest: small_bits)

lemma be_bytes_Suc: "be_bytes (Suc n) v = ucast (drop_bit (8 * n) v) # be_bytes n v"
  by (simp add: be_bytes_def)

lemma byte_step:
  "or (push_bit (8 * n) (ucast (ucast (drop_bit (8 * n) v) :: byte))) (take_bit (8 * n) v)
     = take_bit (8 * n + 8) (v :: 64 word)"
proof (rule bit_eqI)
  fix k
  show "bit (or (push_bit (8 * n) (ucast (ucast (drop_bit (8 * n) v) :: byte))) (take_bit (8 * n) v)) k
      = bit (take_bit (8 * n + 8) v) k"
  proof (cases "k < 8 * n")
    case True
    then show ?thesis by (auto simp: bit_simps)
  next
    case False
    then have "8 * n + (k - 8 * n) = k" by simp
    then show ?thesis using False by (auto simp: bit_simps dest: bit_imp_le_length)
  qed
qed

lemma foldl_be_bytes:
  "foldl (\<lambda>acc b. or (push_bit 8 acc) (ucast b)) acc (be_bytes n v)
     = or (push_bit (8 * n) acc) (take_bit (8 * n) (v :: 64 word))"
proof (induction n arbitrary: acc)
  case 0
  show ?case by (simp add: be_bytes_def)
next
  case (Suc n)
  have "foldl (\<lambda>acc b. or (push_bit 8 acc) (ucast b)) acc (be_bytes (Suc n) v)
      = or (push_bit (8 * n) (or (push_bit 8 acc) (ucast (ucast (drop_bit (8 * n) v) :: byte))))
           (take_bit (8 * n) v)"
    by (simp add: be_bytes_Suc Suc.IH)
  also have "\<dots> = or (push_bit (8 * n + 8) acc)
        (or (push_bit (8 * n) (ucast (ucast (drop_bit (8 * n) v) :: byte))) (take_bit (8 * n) v))"
    by (simp add: push_bit_or push_bit_push_bit ac_simps)
  also have "\<dots> = or (push_bit (8 * Suc n) acc) (take_bit (8 * Suc n) v)"
    by (simp add: byte_step add.commute)
  finally show ?case .
qed

lemma be_value_be_bytes: "be_value (be_bytes n v) = take_bit (8 * n) v"
  by (simp add: be_value_def foldl_be_bytes)

lemma length_be_bytes: "length (be_bytes n v) = n"
  by (simp add: be_bytes_def)


lemma varint_bytes_roundtrip: "varint_roundtrip WriteVarInt ReadVarInt v (varint_bytes v)"
proof -
  have w: "\<forall>w b. room w = None \<longrightarrow>
        fst (WriteVarInt w v b) = None
        \<and> fst (snd (WriteVarInt w v b)) = w\<lparr>written := written w @ varint_bytes v\<rparr>"
    by (simp add: WriteVarInt_def Write_def)
  have r: "fst (ReadVarInt \<lparr>pending = varint_bytes v @ rest, rerr = e\<rparr> b) = Inr v
        \<and> fst (snd (ReadVarInt \<lparr>pending = varint_bytes v @ rest, rerr = e\<rparr> b))
            = \<lparr>pending = rest, rerr = e\<rparr>" for rest e b
  proof -
    consider (one) "v < 253" | (three) "253 \<le> v" "v \<le> 65535"
      | (five) "65535 < v" "v \<le> 4294967295" | (nine) "4294967295 < v"
      by (metis not_le)
    then show ?thesis
    proof cases
      case one
      then have u: "unat v < 253" by (simp add: word_less_nat_alt)
      then have u8: "unat v < 2 ^ 8" by simp
      have bk: "ucast (ucast v :: byte) = v"
        by (rule bit_eqI) (auto simp: bit_simps dest: small_bits [OF u8])
      have lt: "(ucast v :: byte) < 253"
        using u by (simp add: word_less_nat_alt unsigned_ucast_eq take_bit_nat_eq_self)
      show ?thesis using one lt bk
        by (simp add: ReadVarInt_def varint_bytes_def Let_def)
    next
      case three
      then have "unat v < 2 ^ (8 * 2)" by (simp add: word_le_nat_alt)
      then have v: "be_value (be_bytes 2 v) = v" by (simp add: be_value_be_bytes take_bit_small)
      have c: "\<not> v < 253" using three by (simp add: not_less)
      have t: "take 2 (be_bytes 2 v @ rest) = be_bytes 2 v"
        "drop 2 (be_bytes 2 v @ rest) = rest"
        by (simp_all add: length_be_bytes)
      show ?thesis using three c v t
        by (simp add: ReadVarInt_def varint_bytes_def Let_def ReadFull_def length_be_bytes)
    next
      case five
      then have "unat v < 2 ^ (8 * 4)" by (simp add: word_le_nat_alt)
      then have v: "be_value (be_bytes 4 v) = v" by (simp add: be_value_be_bytes take_bit_small)
      have c: "\<not> v < 253" "\<not> v \<le> 65535"
        using five by (simp_all add: word_less_nat_alt word_le_nat_alt)
      have t: "take 4 (be_bytes 4 v @ rest) = be_bytes 4 v"
        "drop 4 (be_bytes 4 v @ rest) = rest"
        by (simp_all add: length_be_bytes)
      show ?thesis using five c v t
        by (simp add: ReadVarInt_def varint_bytes_def Let_def ReadFull_def length_be_bytes)
    next
      case nine
      have v: "be_value (be_bytes 8 v) = v"
        using take_bit_word_eq_self [of 64 v] by (simp add: be_value_be_bytes)
      have c: "\<not> v < 253" "\<not> v \<le> 65535" "\<not> v \<le> 4294967295"
        using nine by (simp_all add: word_less_nat_alt word_le_nat_alt)
      have t: "take 8 (be_bytes 8 v @ rest) = be_bytes 8 v"
        "drop 8 (be_bytes 8 v @ rest) = rest"
        by (simp_all add: length_be_bytes)
      show ?thesis using c v t
        by (simp add: ReadVarInt_def varint_bytes_def Let_def ReadFull_def length_be_bytes)
    qed
  qed
  show ?thesis unfolding varint_roundtrip_def using w r by blast
qed


lemma ReadVarInt_clean_end: "clean_end ReadVarInt"
  by (simp add: clean_end_def ReadVarInt_def)

lemma bytes_record_roundtrip:
  assumes "length a \<le> 65535"
  shows "value_roundtrip (bytes_record t p) a a"
proof -
  have u: "unat (word_of_nat (length a) :: 64 word) = length a"
    using assms by (simp add: unat_of_nat)
  then have "(word_of_nat (length a) :: 64 word) \<le> MaxRecordSize"
    using assms by (simp add: word_le_nat_alt MaxRecordSize_def)
  then show ?thesis
    using u
    by (simp add: value_roundtrip_def bytes_record_def bytes_encoder_def bytes_decoder_def
          Write_def ReadFull_def)
qed

end
